theory Spec2Isabelle
  imports Main "HOL-Library.Sublist" "HOL-Library.AList"
begin


section \<open>The module graph of the dev server (server/moduleGraph.ts)\<close>

text \<open>
  A shallow embedding of the classes \<^verbatim>\<open>ModuleNode\<close> and \<^verbatim>\<open>ModuleGraph\<close>.

  \<^item> A \<^verbatim>\<open>ModuleNode\<close> object is an address (its index in the list of all nodes
    constructed so far); a reference to a node is that address, so that two references
    are the same object exactly when the addresses are equal.
  \<^item> A JavaScript \<^verbatim>\<open>Set\<close> is a duplicate-free list in insertion order, a
    \<^verbatim>\<open>Map\<close> an association list in insertion order (\<^verbatim>\<open>forEach\<close>
    iterates in that order).
  \<^item> Cached artifacts (\<^verbatim>\<open>TransformResult\<close>, \<^verbatim>\<open>ModuleInfo\<close>, the
    evaluated ssr module, an \<^verbatim>\<open>Error\<close>) are opaque: only their presence matters.
  \<^item> Timestamps are integers (\<^verbatim>\<open>Date.now()\<close> is a number of milliseconds).
\<close>

subsection \<open>Data model\<close>

type_synonym addr = nat
type_synonym artifact = string

datatype module_type = Js | Css

record module_node =
  url :: string
  id_m :: "string option"
  file_m :: "string option"
  type_m :: module_type
  info :: "artifact option"
  meta :: "artifact option"
  importers :: "addr list"
  clientImportedModules :: "addr list"
  ssrImportedModules :: "addr list"
  acceptedHmrDeps :: "addr list"
  acceptedHmrExports :: "string list option"
  importedBindings :: "(string \<times> string list) list option"
  isSelfAccepting :: "bool option"
  transformResult :: "artifact option"
  ssrTransformResult :: "artifact option"
  ssrModule :: "artifact option"
  ssrError :: "artifact option"
  lastHMRTimestamp :: int
  lastInvalidationTimestamp :: int

text \<open>\<^verbatim>\<open>Set.prototype.add\<close>, \<^verbatim>\<open>delete\<close> and \<^verbatim>\<open>new Set(array)\<close>.\<close>

definition set_add :: "'a \<Rightarrow> 'a list \<Rightarrow> 'a list" where
  "set_add x xs = (if x \<in> set xs then xs else xs @ [x])"


definition new_Set :: "'a list \<Rightarrow> 'a list" where
  "new_Set xs = fold set_add xs []"

text \<open>
  The helpers the file imports from \<^verbatim>\<open>../utils\<close>, \<^verbatim>\<open>../plugins/css\<close>,
  \<^verbatim>\<open>../constants\<close> and \<^verbatim>\<open>node:path\<close>. Their sources are not part of the
  verified files, so they are parameters of the model.
\<close>

record env =
  cleanUrl :: "string \<Rightarrow> string"
  normalizePath :: "string \<Rightarrow> string"
  removeImportQuery :: "string \<Rightarrow> string"
  removeTimestampQuery :: "string \<Rightarrow> string"
  isDirectCSSRequest :: "string \<Rightarrow> bool"
  extname :: "string \<Rightarrow> string"
  FS_PREFIX :: string

text \<open>The constructor \<^verbatim>\<open>new ModuleNode(url, setIsSelfAccepting = true)\<close>.\<close>

definition new_ModuleNode :: "env \<Rightarrow> string \<Rightarrow> bool \<Rightarrow> module_node" where
  "new_ModuleNode e u setIsSelfAccepting =
     \<lparr> url = u, id_m = None, file_m = None,
       type_m = (if isDirectCSSRequest e u then Css else Js),
       info = None, meta = None,
       importers = [], clientImportedModules = [], ssrImportedModules = [],
       acceptedHmrDeps = [], acceptedHmrExports = None, importedBindings = None,
       isSelfAccepting = (if setIsSelfAccepting then Some False else None),
       transformResult = None, ssrTransformResult = None,
       ssrModule = None, ssrError = None,
       lastHMRTimestamp = 0, lastInvalidationTimestamp = 0 \<rparr>"

text \<open>The getter \<^verbatim>\<open>importedModules\<close>: the client edges, then the ssr edges not yet there.\<close>

definition importedModules :: "module_node \<Rightarrow> addr list" where
  "importedModules n = fold set_add (ssrImportedModules n) (new_Set (clientImportedModules n))"

subsection \<open>Invalidation\<close>

text \<open>
  \<^verbatim>\<open>invalidateModule\<close> mutates the nodes it reaches and the \<^verbatim>\<open>seen\<close> set it was
  handed; both are threaded through the walk. \<open>visits\<close> is a history variable that the
  code does not have: it records, in order, every execution of the body behind the
  \<^verbatim>\<open>seen.has(mod)\<close> guard, so that "invalidated once" can be stated.
\<close>

record walk =
  heap :: "module_node list"
  seen :: "addr list"
  visits :: "addr list"

text \<open>The assignments of \<^verbatim>\<open>invalidateModule\<close> to the node itself.\<close>

definition clear_node :: "int \<Rightarrow> bool \<Rightarrow> module_node \<Rightarrow> module_node" where
  "clear_node timestamp isHmr n =
     (if isHmr then n\<lparr>lastHMRTimestamp := timestamp\<rparr>
      else n\<lparr>lastInvalidationTimestamp := timestamp\<rparr>)
     \<lparr>transformResult := None, ssrTransformResult := None,
      ssrModule := None, ssrError := None\<rparr>"

definition unseen :: "walk \<Rightarrow> nat" where
  "unseen w = card ({..<length (heap w)} - set (seen w))"

text \<open>
  \<open>invalidateImporters w modu timestamp isHmr imps\<close> is the loop
  \<^verbatim>\<open>mod.importers.forEach(...)\<close> on the importers still to come. The recursive call
  passes no \<^verbatim>\<open>hmrBoundaries\<close>, so the parameter takes its default \<^verbatim>\<open>[]\<close>.
  An address outside the heap denotes no object; a JavaScript reference is never
  dangling, and the model leaves the state alone there.
\<close>

function invalidateModule :: "walk \<Rightarrow> addr \<Rightarrow> int \<Rightarrow> bool \<Rightarrow> addr list \<Rightarrow> walk"
  and invalidateImporters :: "walk \<Rightarrow> addr \<Rightarrow> int \<Rightarrow> bool \<Rightarrow> addr list \<Rightarrow> walk"
where
  "invalidateModule w modu timestamp isHmr hmrBoundaries =
     (if modu \<in> set (seen w) then w
      else if length (heap w) \<le> modu then w
      else
        let w1 = w\<lparr>heap := (heap w)[modu := clear_node timestamp isHmr (heap w ! modu)],
                   seen := seen w @ [modu],
                   visits := visits w @ [modu]\<rparr>
        in if modu \<in> set hmrBoundaries then w1
           else invalidateImporters w1 modu timestamp isHmr (importers (heap w1 ! modu)))"
| "invalidateImporters w modu timestamp isHmr [] = w"
| "invalidateImporters w modu timestamp isHmr (importer # rest) =
     invalidateImporters
       (if length (heap w) \<le> importer then w
        else if modu \<in> set (acceptedHmrDeps (heap w ! importer)) then w
        else invalidateModule w importer timestamp isHmr [])
       modu timestamp isHmr rest"
  by pat_completeness auto

lemma unseen_mark:
  "m < length (heap w) \<Longrightarrow> m \<notin> set (seen w) \<Longrightarrow>
   unseen (w\<lparr>heap := (heap w)[m := n], seen := seen w @ [m], visits := v\<rparr>) < unseen w"
proof -
  assume a: "m < length (heap w)" "m \<notin> set (seen w)"
  have "{..<length (heap w)} - insert m (set (seen w)) \<subset> {..<length (heap w)} - set (seen w)"
    using a by auto
  then have "card ({..<length (heap w)} - insert m (set (seen w)))
      < card ({..<length (heap w)} - set (seen w))"
    by (intro psubset_card_mono) auto
  then show ?thesis by (simp add: unseen_def)
qed

lemma unseen_mono:
  "length (heap w') = length (heap w) \<Longrightarrow> set (seen w) \<subseteq> set (seen w') \<Longrightarrow>
   unseen w' \<le> unseen w"
  unfolding unseen_def
  by (auto intro!: card_mono)

lemma walk_grows_partial:
  "invalidateModule_invalidateImporters_dom (Inl (w, modu, timestamp, isHmr, hmrBoundaries)) \<Longrightarrow>
     length (heap (invalidateModule w modu timestamp isHmr hmrBoundaries)) = length (heap w) \<and>
     set (seen w) \<subseteq> set (seen (invalidateModule w modu timestamp isHmr hmrBoundaries))"
  "invalidateModule_invalidateImporters_dom (Inr (w, modu, timestamp, isHmr, imps)) \<Longrightarrow>
     length (heap (invalidateImporters w modu timestamp isHmr imps)) = length (heap w) \<and>
     set (seen w) \<subseteq> set (seen (invalidateImporters w modu timestamp isHmr imps))"
proof (induct rule: invalidateModule_invalidateImporters.pinduct)
  case (1 w modu timestamp isHmr hmrBoundaries)
  then show ?case
    by (auto simp: invalidateModule.psimps Let_def)
next
  case (2 w modu timestamp isHmr)
  then show ?case by (simp add: invalidateImporters.psimps)
next
  case (3 w modu timestamp isHmr importer rest)
  define w' where "w' = (if length (heap w) \<le> importer then w
        else if modu \<in> set (acceptedHmrDeps (heap w ! importer)) then w
        else invalidateModule w importer timestamp isHmr [])"
  have a: "length (heap w') = length (heap w) \<and> set (seen w) \<subseteq> set (seen w')"
    using 3(2) by (simp add: w'_def)
  have b: "length (heap (invalidateImporters w' modu timestamp isHmr rest)) = length (heap w') \<and>
      set (seen w') \<subseteq> set (seen (invalidateImporters w' modu timestamp isHmr rest))"
    using 3(3) by (simp add: w'_def)
  have c: "invalidateImporters w modu timestamp isHmr (importer # rest) =
      invalidateImporters w' modu timestamp isHmr rest"
    using 3(1) by (simp add: invalidateImporters.psimps w'_def)
  show ?case unfolding c using a b by auto
qed

termination invalidateModule
proof (relation "inv_image (less_than <*lex*> less_than)
    (\<lambda>x. case x of Inl (w, _, _, _, _) \<Rightarrow> (unseen w, 0)
                  | Inr (w, _, _, _, imps) \<Rightarrow> (unseen w, Suc (length imps)))", goal_cases)
  case 1
  then show ?case by (intro wf_inv_image wf_lex_prod wf_less_than)
next
  case (2 w modu timestamp isHmr hmrBoundaries x)
  then show ?case by (simp add: unseen_mark)
next
  case (3 w modu timestamp isHmr importer rest)
  then show ?case by simp
next
  case (4 w modu timestamp isHmr importer rest)
  then show ?case
    using walk_grows_partial(1)[of w importer timestamp isHmr "[]"] unseen_mono
    by (auto simp: le_less)
qed

declare invalidateModule.simps [simp del]

subsection \<open>Vocabulary for the properties of the walk\<close>

text \<open>
  \<open>walked timestamp isHmr w w' vs\<close>: from \<open>w\<close> to \<open>w'\<close> exactly the nodes \<open>vs\<close>, none of
  them seen before and none twice, were marked as seen and had the assignments of
  \<^verbatim>\<open>invalidateModule\<close> applied, once each; every other node is as it was.
\<close>

definition walked :: "int \<Rightarrow> bool \<Rightarrow> walk \<Rightarrow> walk \<Rightarrow> addr list \<Rightarrow> bool" where
  "walked timestamp isHmr w w' vs \<longleftrightarrow>
     seen w' = seen w @ vs \<and> visits w' = visits w @ vs \<and>
     distinct vs \<and> set vs \<inter> set (seen w) = {} \<and>
     (\<forall>v \<in> set vs. v < length (heap w)) \<and>
     length (heap w') = length (heap w) \<and>
     (\<forall>a < length (heap w). heap w' ! a =
        (if a \<in> set vs then clear_node timestamp isHmr (heap w ! a) else heap w ! a))"

text \<open>
  The fields that \<^verbatim>\<open>invalidateModule\<close> is meant to leave alone: the metadata of the
  transform pipeline and the import and acceptance edges.
\<close>

definition bookkeeping ::
  "module_node \<Rightarrow> artifact option \<times> artifact option \<times> addr list \<times> addr list \<times> addr list \<times> addr list
     \<times> string list option \<times> (string \<times> string list) list option" where
  "bookkeeping n = (info n, meta n, importers n, clientImportedModules n, ssrImportedModules n,
     acceptedHmrDeps n, acceptedHmrExports n, importedBindings n)"



subsection \<open>The registry and its resolver\<close>

text \<open>
  The resolver handed to the constructor returns a promise of a
  \<^verbatim>\<open>PartialResolvedId | null\<close>. The promise either rejects or settles with a value;
  of a \<^verbatim>\<open>PartialResolvedId\<close> only \<^verbatim>\<open>id\<close> and \<^verbatim>\<open>meta\<close> are read.
\<close>

record partial_resolved_id =
  pr_id :: string
  pr_meta :: "artifact option"

datatype resolution = Rejects | Resolves "partial_resolved_id option"

text \<open>
  The values of the two pending caches are \<^verbatim>\<open>Promise<ModuleNode> | ModuleNode\<close>. The
  only promises stored there are those of the async closure in
  \<^verbatim>\<open>_ensureEntryFromUrl\<close>; each is a task with the variables the closure captured and
  the state of its promise.
\<close>

datatype handle = Node addr | Promise nat

datatype promise_state = Pending | Fulfilled addr | Rejected

record ensure_task =
  t_rawUrl :: string
  t_ssr :: bool
  t_setIsSelfAccepting :: bool
  t_resolved :: "partial_resolved_id option"
  t_state :: promise_state

text \<open>
  \<open>nodes\<close> is the object heap, \<open>promises\<close> the tasks started so far. \<open>resolveCalls\<close> is a
  history variable that the code does not have: the arguments of every invocation of the
  resolver, in order.
\<close>

record module_graph =
  nodes :: "module_node list"
  urlToModuleMap :: "(string \<times> addr) list"
  idToModuleMap :: "(string \<times> addr) list"
  fileToModulesMap :: "(string \<times> addr list) list"
  safeModulesPath :: "string list"
  unresolvedUrlToModuleMap :: "(string \<times> handle) list"
  ssrUnresolvedUrlToModuleMap :: "(string \<times> handle) list"
  resolveId :: "string \<Rightarrow> bool \<Rightarrow> resolution"
  promises :: "ensure_task list"
  resolveCalls :: "(string \<times> bool) list"

text \<open>\<^verbatim>\<open>new ModuleGraph(resolveId)\<close>.\<close>

definition new_ModuleGraph :: "(string \<Rightarrow> bool \<Rightarrow> resolution) \<Rightarrow> module_graph" where
  "new_ModuleGraph r =
     \<lparr> nodes = [], urlToModuleMap = [], idToModuleMap = [], fileToModulesMap = [],
       safeModulesPath = [], unresolvedUrlToModuleMap = [], ssrUnresolvedUrlToModuleMap = [],
       resolveId = r, promises = [], resolveCalls = [] \<rparr>"

text \<open>
  A failed operation: the resolver's promise rejected. \<open>Unsettled\<close> is the model's answer
  to awaiting a promise that no task will settle; the operations below never return it for
  a promise of the graph.
\<close>

datatype error = ResolverRejected | Unsettled

type_synonym resolved_url = "string \<times> string \<times> artifact option"

text \<open>\<^verbatim>\<open>_getUnresolvedUrlToModule\<close> and \<^verbatim>\<open>_setUnresolvedUrlToModule\<close>.\<close>

definition getUnresolvedUrlToModule :: "module_graph \<Rightarrow> string \<Rightarrow> bool \<Rightarrow> handle option" where
  "getUnresolvedUrlToModule g u ssr =
     map_of (if ssr then ssrUnresolvedUrlToModuleMap g else unresolvedUrlToModuleMap g) u"

definition setUnresolvedUrlToModule :: "module_graph \<Rightarrow> string \<Rightarrow> handle \<Rightarrow> bool \<Rightarrow> module_graph" where
  "setUnresolvedUrlToModule g u h ssr =
     (if ssr then g\<lparr>ssrUnresolvedUrlToModuleMap := AList.update u h (ssrUnresolvedUrlToModuleMap g)\<rparr>
      else g\<lparr>unresolvedUrlToModuleMap := AList.update u h (unresolvedUrlToModuleMap g)\<rparr>)"

text \<open>
  \<^verbatim>\<open>_resolveUrl\<close> from the point where the resolver's result is there:
  \<^verbatim>\<open>resolved?.id || url\<close> falls back to the url on a null result and on an empty id.
\<close>

definition resolveUrl_finish :: "env \<Rightarrow> string \<Rightarrow> partial_resolved_id option \<Rightarrow> resolved_url" where
  "resolveUrl_finish e u resolved =
     (let resolvedId = (case resolved of None \<Rightarrow> u
                        | Some r \<Rightarrow> if pr_id r = [] then u else pr_id r);
          u' = (if u \<noteq> resolvedId \<and> CHR 0x00 \<notin> set u \<and> \<not> prefix ''virtual:'' u
                then (let ext = extname e (cleanUrl e resolvedId)
                      in if ext \<noteq> []
                         then (let pathname = cleanUrl e u
                               in if \<not> suffix ext pathname
                                  then pathname @ ext @ drop (length pathname) u
                                  else u)
                         else u)
                else u)
      in (u', resolvedId, (case resolved of None \<Rightarrow> None | Some r \<Rightarrow> pr_meta r)))"

text \<open>\<^verbatim>\<open>_resolveUrl\<close>, awaited to its end.\<close>

definition internal_resolveUrl ::
  "env \<Rightarrow> module_graph \<Rightarrow> string \<Rightarrow> bool \<Rightarrow> partial_resolved_id option
     \<Rightarrow> (error + resolved_url) \<times> module_graph" where
  "internal_resolveUrl e g u ssr alreadyResolved =
     (case alreadyResolved of
        Some r \<Rightarrow> (Inr (resolveUrl_finish e u (Some r)), g)
      | None \<Rightarrow>
          (let g1 = g\<lparr>resolveCalls := resolveCalls g @ [(u, ssr)]\<rparr>
           in case resolveId g u ssr of
                Rejects \<Rightarrow> (Inl ResolverRejected, g1)
              | Resolves r \<Rightarrow> (Inr (resolveUrl_finish e u r), g1)))"

text \<open>
  \<^verbatim>\<open>_ensureEntryFromUrl\<close> up to its \<^verbatim>\<open>return\<close>: the part that runs before control goes
  back to the caller. On a miss in the pending cache the closure is started; it runs
  into \<^verbatim>\<open>_resolveUrl\<close>, which invokes the resolver (unless \<^verbatim>\<open>resolved\<close> was handed in)
  and suspends; then the promise is stored in the cache under the stripped url.
\<close>

definition ensureEntry_begin ::
  "env \<Rightarrow> module_graph \<Rightarrow> string \<Rightarrow> bool \<Rightarrow> bool \<Rightarrow> partial_resolved_id option
     \<Rightarrow> handle \<times> module_graph" where
  "ensureEntry_begin e g rawUrl ssr setIsSelfAccepting resolved =
     (let rawUrl' = removeImportQuery e (removeTimestampQuery e rawUrl)
      in case getUnresolvedUrlToModule g rawUrl' ssr of
           Some modu \<Rightarrow> (modu, g)
         | None \<Rightarrow>
             (let p = length (promises g);
                  g1 = (case resolved of
                          Some r \<Rightarrow> g
                        | None \<Rightarrow> g\<lparr>resolveCalls := resolveCalls g @ [(rawUrl', ssr)]\<rparr>);
                  g2 = g1\<lparr>promises := promises g1 @
                          [\<lparr>t_rawUrl = rawUrl', t_ssr = ssr,
                            t_setIsSelfAccepting = setIsSelfAccepting,
                            t_resolved = resolved, t_state = Pending\<rparr>]\<rparr>
              in (Promise p, setUnresolvedUrlToModule g2 rawUrl' (Promise p) ssr)))"

text \<open>The branch of the closure that creates and registers a node.\<close>

definition register_new_node ::
  "env \<Rightarrow> module_graph \<Rightarrow> string \<Rightarrow> string \<Rightarrow> artifact option \<Rightarrow> bool
     \<Rightarrow> addr \<times> module_graph" where
  "register_new_node e g u resolvedId meta' setIsSelfAccepting =
     (let modu = length (nodes g);
          file = cleanUrl e resolvedId;
          n = (new_ModuleNode e u setIsSelfAccepting)
                \<lparr>meta := meta', id_m := Some resolvedId, file_m := Some file\<rparr>;
          fileMappedModules = (case map_of (fileToModulesMap g) file of
                                 None \<Rightarrow> [] | Some s \<Rightarrow> s)
      in (modu,
          g\<lparr>nodes := nodes g @ [n],
            urlToModuleMap := AList.update u modu (urlToModuleMap g),
            idToModuleMap := AList.update resolvedId modu (idToModuleMap g),
            fileToModulesMap :=
              AList.update file (set_add modu fileMappedModules) (fileToModulesMap g)\<rparr>))"

text \<open>
  The rest of the closure, run when the resolver's promise has settled: one step of the
  cooperative scheduler. The resolver is referentially stable, so its result is read off
  \<open>resolveId\<close> here. A task that is not pending (or does not exist) has nothing left to run.
\<close>

definition ensureEntry_resume :: "env \<Rightarrow> module_graph \<Rightarrow> nat \<Rightarrow> module_graph" where
  "ensureEntry_resume e g p =
     (if length (promises g) \<le> p then g
      else
        let t = promises g ! p
        in if t_state t \<noteq> Pending then g
           else
             case (case t_resolved t of
                     Some r \<Rightarrow> Resolves (Some r)
                   | None \<Rightarrow> resolveId g (t_rawUrl t) (t_ssr t)) of
               Rejects \<Rightarrow> g\<lparr>promises := (promises g)[p := t\<lparr>t_state := Rejected\<rparr>]\<rparr>
             | Resolves r \<Rightarrow>
                 (case resolveUrl_finish e (t_rawUrl t) r of
                    (u, resolvedId, meta') \<Rightarrow>
                      (let (modu, g1) =
                             (case map_of (idToModuleMap g) resolvedId of
                                None \<Rightarrow> register_new_node e g u resolvedId meta'
                                          (t_setIsSelfAccepting t)
                              | Some m \<Rightarrow>
                                  (m, if map_of (urlToModuleMap g) u = None
                                      then g\<lparr>urlToModuleMap := AList.update u m (urlToModuleMap g)\<rparr>
                                      else g));
                           g2 = setUnresolvedUrlToModule g1 (t_rawUrl t) (Node modu) (t_ssr t)
                       in g2\<lparr>promises := (promises g2)[p := t\<lparr>t_state := Fulfilled modu\<rparr>]\<rparr>)))"

text \<open>
  \<^verbatim>\<open>await\<close> on a value of a pending cache, in a run where nothing else is scheduled in
  between: a node is there at once, a promise is first brought to its end.
\<close>

definition await_handle :: "env \<Rightarrow> module_graph \<Rightarrow> handle \<Rightarrow> (error + addr) \<times> module_graph" where
  "await_handle e g h =
     (case h of
        Node a \<Rightarrow> (Inr a, g)
      | Promise p \<Rightarrow>
          (let g1 = ensureEntry_resume e g p
           in if length (promises g1) \<le> p then (Inl Unsettled, g1)
              else case t_state (promises g1 ! p) of
                     Fulfilled a \<Rightarrow> (Inr a, g1)
                   | Rejected \<Rightarrow> (Inl ResolverRejected, g1)
                   | Pending \<Rightarrow> (Inl Unsettled, g1)))"

text \<open>\<^verbatim>\<open>_ensureEntryFromUrl\<close> and \<^verbatim>\<open>ensureEntryFromUrl\<close>, awaited by the caller.\<close>

definition internal_ensureEntryFromUrl ::
  "env \<Rightarrow> module_graph \<Rightarrow> string \<Rightarrow> bool \<Rightarrow> bool \<Rightarrow> partial_resolved_id option
     \<Rightarrow> (error + addr) \<times> module_graph" where
  "internal_ensureEntryFromUrl e g rawUrl ssr setIsSelfAccepting resolved =
     (case ensureEntry_begin e g rawUrl ssr setIsSelfAccepting resolved of
        (h, g1) \<Rightarrow> await_handle e g1 h)"

definition ensureEntryFromUrl ::
  "env \<Rightarrow> module_graph \<Rightarrow> string \<Rightarrow> bool \<Rightarrow> bool \<Rightarrow> (error + addr) \<times> module_graph" where
  "ensureEntryFromUrl e g rawUrl ssr setIsSelfAccepting =
     internal_ensureEntryFromUrl e g rawUrl ssr setIsSelfAccepting None"

text \<open>\<^verbatim>\<open>resolveUrl\<close>: \<^verbatim>\<open>mod?.id\<close> holds for a node whose id is a non-empty string.\<close>

definition resolveUrl ::
  "env \<Rightarrow> module_graph \<Rightarrow> string \<Rightarrow> bool \<Rightarrow> (error + resolved_url) \<times> module_graph" where
  "resolveUrl e g u0 ssr =
     (let u = removeImportQuery e (removeTimestampQuery e u0)
      in case getUnresolvedUrlToModule g u ssr of
           None \<Rightarrow> internal_resolveUrl e g u ssr None
         | Some h \<Rightarrow>
             (case await_handle e g h of
                (Inl err, g1) \<Rightarrow> (Inl err, g1)
              | (Inr a, g1) \<Rightarrow>
                  (case (if a < length (nodes g1) then id_m (nodes g1 ! a) else None) of
                     None \<Rightarrow> internal_resolveUrl e g1 u ssr None
                   | Some i \<Rightarrow>
                       if i = [] then internal_resolveUrl e g1 u ssr None
                       else (Inr (url (nodes g1 ! a), i, meta (nodes g1 ! a)), g1))))"



definition getModulesByFile :: "module_graph \<Rightarrow> string \<Rightarrow> addr list option" where
  "getModulesByFile g file = map_of (fileToModulesMap g) file"

text \<open>
  \<^verbatim>\<open>createFileOnlyEntry\<close>. The loop returns the first node of the file's set whose url
  is the synthesized one or whose id is the file.
\<close>

definition createFileOnlyEntry :: "env \<Rightarrow> module_graph \<Rightarrow> string \<Rightarrow> addr \<times> module_graph" where
  "createFileOnlyEntry e g file0 =
     (let file = normalizePath e file0;
          (fileMappedModules, g1) =
             (case map_of (fileToModulesMap g) file of
                None \<Rightarrow> ([], g\<lparr>fileToModulesMap := AList.update file [] (fileToModulesMap g)\<rparr>)
              | Some s \<Rightarrow> (s, g));
          u = FS_PREFIX e @ file
      in case find (\<lambda>m. m < length (nodes g1) \<and>
                          (url (nodes g1 ! m) = u \<or> id_m (nodes g1 ! m) = Some file))
                   fileMappedModules of
           Some m \<Rightarrow> (m, g1)
         | None \<Rightarrow>
             (let modu = length (nodes g1);
                  n = (new_ModuleNode e u True)\<lparr>file_m := Some file\<rparr>
              in (modu,
                  g1\<lparr>nodes := nodes g1 @ [n],
                     fileToModulesMap :=
                       AList.update file (set_add modu fileMappedModules) (fileToModulesMap g1)\<rparr>)))"

text \<open>
  \<^verbatim>\<open>invalidateAll\<close> reads the clock once, \<^verbatim>\<open>onFileChange\<close> once for every module of the
  file (the default value of the parameter \<^verbatim>\<open>timestamp\<close> is evaluated at each call of
  \<^verbatim>\<open>invalidateModule\<close>); \<open>now k\<close> is the reading at the \<open>k\<close>-th of these calls. Both
  hand out a new \<^verbatim>\<open>seen\<close> set. The functions \<open>\<dots>_walk\<close> return the whole final state
  of the walk, the operations themselves the graph with the nodes as the walk left them.
\<close>

definition invalidateAll_walk :: "module_graph \<Rightarrow> int \<Rightarrow> walk" where
  "invalidateAll_walk g timestamp =
     fold (\<lambda>(i, modu) w. invalidateModule w modu timestamp False [])
          (idToModuleMap g) \<lparr>heap = nodes g, seen = [], visits = []\<rparr>"

definition invalidateAll :: "module_graph \<Rightarrow> int \<Rightarrow> module_graph" where
  "invalidateAll g timestamp = g\<lparr>nodes := heap (invalidateAll_walk g timestamp)\<rparr>"

fun invalidateEach :: "walk \<Rightarrow> addr list \<Rightarrow> (nat \<Rightarrow> int) \<Rightarrow> nat \<Rightarrow> walk" where
  "invalidateEach w [] now k = w"
| "invalidateEach w (modu # mods) now k =
     invalidateEach (invalidateModule w modu (now k) False []) mods now (Suc k)"

definition onFileChange_walk :: "module_graph \<Rightarrow> string \<Rightarrow> (nat \<Rightarrow> int) \<Rightarrow> walk" where
  "onFileChange_walk g file now =
     (case getModulesByFile g file of
        None \<Rightarrow> \<lparr>heap = nodes g, seen = [], visits = []\<rparr>
      | Some mods \<Rightarrow> invalidateEach \<lparr>heap = nodes g, seen = [], visits = []\<rparr> mods now 0)"

definition onFileChange :: "module_graph \<Rightarrow> string \<Rightarrow> (nat \<Rightarrow> int) \<Rightarrow> module_graph" where
  "onFileChange g file now = g\<lparr>nodes := heap (onFileChange_walk g file now)\<rparr>"

subsection \<open>Consistency of the pending caches\<close>

text \<open>
  The id that the resolver gives a stripped url: \<^verbatim>\<open>resolved?.id || url\<close>, or nothing
  when its promise rejects.
\<close>

definition resolved_id :: "env \<Rightarrow> module_graph \<Rightarrow> string \<Rightarrow> bool \<Rightarrow> string option" where
  "resolved_id e g u ssr =
     (case resolveId g u ssr of
        Rejects \<Rightarrow> None
      | Resolves r \<Rightarrow> Some (fst (snd (resolveUrl_finish e u r))))"

text \<open>
  What \<^verbatim>\<open>ensureEntryFromUrl\<close> keeps true of a value stored in a pending cache under the
  stripped url \<open>u\<close>: a node is the node that the id index holds for the id of \<open>u\<close>; a
  promise is that of a task for \<open>u\<close> which has not been fulfilled (a fulfilled task has
  replaced its promise by its node).
\<close>

definition handle_ok :: "env \<Rightarrow> module_graph \<Rightarrow> string \<Rightarrow> bool \<Rightarrow> handle \<Rightarrow> bool" where
  "handle_ok e g u ssr h =
     (case h of
        Node a \<Rightarrow>
          (case resolved_id e g u ssr of
             None \<Rightarrow> False
           | Some i \<Rightarrow> map_of (idToModuleMap g) i = Some a)
      | Promise p \<Rightarrow>
          p < length (promises g) \<and> t_rawUrl (promises g ! p) = u \<and> t_ssr (promises g ! p) = ssr \<and>
          (case t_state (promises g ! p) of Fulfilled a \<Rightarrow> False | _ \<Rightarrow> True))"

text \<open>
  Conversely, what holds of the task with the promise \<open>p\<close>: it was started without a
  \<^verbatim>\<open>resolved\<close> argument, as the public method does, and the cache of its flag holds its
  promise under its url until it is fulfilled, and the node from then on.
\<close>

definition task_ok :: "module_graph \<Rightarrow> nat \<Rightarrow> ensure_task \<Rightarrow> bool" where
  "task_ok g p t \<longleftrightarrow>
     t_resolved t = None \<and>
     getUnresolvedUrlToModule g (t_rawUrl t) (t_ssr t)
       = Some (case t_state t of Fulfilled a \<Rightarrow> Node a | _ \<Rightarrow> Promise p)"

text \<open>
  The states of the registry that calls of \<^verbatim>\<open>ensureEntryFromUrl\<close> produce from the empty
  graph: both caches and all tasks are consistent.
\<close>

definition registry_ok :: "env \<Rightarrow> module_graph \<Rightarrow> bool" where
  "registry_ok e g \<longleftrightarrow>
     distinct (map fst (unresolvedUrlToModuleMap g)) \<and>
     distinct (map fst (ssrUnresolvedUrlToModuleMap g)) \<and>
     list_all (\<lambda>(u, h). handle_ok e g u False h) (unresolvedUrlToModuleMap g) \<and>
     list_all (\<lambda>(u, h). handle_ok e g u True h) (ssrUnresolvedUrlToModuleMap g) \<and>
     list_all (\<lambda>(p, t). task_ok g p t) (enumerate 0 (promises g))"

text \<open>
  What else the settled tasks leave behind. A node stored in a pending cache under \<open>u\<close>
  was put there by a task whose resolver call succeeded and which made sure that the url
  index has an entry for the served url of \<open>u\<close>; a task is rejected only when the
  resolver's promise for its url was.
\<close>

definition served_ok :: "env \<Rightarrow> module_graph \<Rightarrow> string \<Rightarrow> bool \<Rightarrow> handle \<Rightarrow> bool" where
  "served_ok e g u ssr h =
     (case h of
        Promise p \<Rightarrow> True
      | Node a \<Rightarrow>
          (case resolveId g u ssr of
             Rejects \<Rightarrow> False
           | Resolves r \<Rightarrow> map_of (urlToModuleMap g) (fst (resolveUrl_finish e u r)) \<noteq> None))"

definition settled_ok :: "env \<Rightarrow> module_graph \<Rightarrow> bool" where
  "settled_ok e g \<longleftrightarrow>
     list_all (\<lambda>(u, h). served_ok e g u False h) (unresolvedUrlToModuleMap g) \<and>
     list_all (\<lambda>(u, h). served_ok e g u True h) (ssrUnresolvedUrlToModuleMap g) \<and>
     list_all (\<lambda>t. t_state t \<noteq> Rejected \<or> resolveId g (t_rawUrl t) (t_ssr t) = Rejects)
       (promises g)"

text \<open>
  \<open>created_at e g g' i a\<close>: from \<open>g\<close> to \<open>g'\<close> one node was constructed, at the address
  \<open>a\<close>, with the id \<open>i\<close> and its file, and \<open>g'\<close> has it in the url index under its url, in
  the id index under \<open>i\<close> and in the file index under its file.
\<close>

definition created_at :: "env \<Rightarrow> module_graph \<Rightarrow> module_graph \<Rightarrow> string \<Rightarrow> addr \<Rightarrow> bool" where
  "created_at e g g' i a \<longleftrightarrow>
     a = length (nodes g) \<and> length (nodes g') = Suc (length (nodes g)) \<and>
     id_m (nodes g' ! a) = Some i \<and> file_m (nodes g' ! a) = Some (cleanUrl e i) \<and>
     map_of (urlToModuleMap g') (url (nodes g' ! a)) = Some a \<and>
     map_of (idToModuleMap g') i = Some a \<and>
     (case map_of (fileToModulesMap g') (cleanUrl e i) of None \<Rightarrow> False | Some s \<Rightarrow> a \<in> set s)"







subsection \<open>Interleaved calls\<close>

text \<open>
  The scheduler is cooperative: what interleaves are the synchronous parts of the
  operations. For \<^verbatim>\<open>ensureEntryFromUrl\<close> these are the call up to its \<^verbatim>\<open>return\<close>
  and, for each task, the continuation that runs when the resolver's promise has settled.
  \<open>run\<close> executes a schedule and returns, for every call in it, the arguments with the
  value the caller got back, and the final graph.
\<close>

datatype event = Call string bool bool | Settle nat

fun run :: "env \<Rightarrow> module_graph \<Rightarrow> event list \<Rightarrow> (string \<times> bool \<times> handle) list \<times> module_graph" where
  "run e g [] = ([], g)"
| "run e g (Call rawUrl ssr setIsSelfAccepting # evs) =
     (case ensureEntry_begin e g rawUrl ssr setIsSelfAccepting None of
        (h, g1) \<Rightarrow> (case run e g1 evs of (rs, g2) \<Rightarrow> ((rawUrl, ssr, h) # rs, g2)))"
| "run e g (Settle p # evs) = run e (ensureEntry_resume e g p) evs"

subsection \<open>Updating the import graph\<close>


text \<open>\<^verbatim>\<open>dep.importers.add(mod)\<close>.\<close>

definition add_importer :: "module_graph \<Rightarrow> addr \<Rightarrow> addr \<Rightarrow> module_graph" where
  "add_importer g dep modu =
     g\<lparr>nodes := (nodes g)[dep := (nodes g ! dep)
                    \<lparr>importers := set_add modu (importers (nodes g ! dep))\<rparr>]\<rparr>"






subsection \<open>Vocabulary for the properties of the update\<close>

text \<open>
  \<open>kept g g'\<close>: every node of \<open>g\<close> is unchanged in \<open>g'\<close>. \<open>grown g g'\<close>: every node of
  \<open>g\<close> is unchanged in \<open>g'\<close> but for its importers, which it all still has.
\<close>

definition kept :: "module_graph \<Rightarrow> module_graph \<Rightarrow> bool" where
  "kept g g' \<longleftrightarrow> length (nodes g) \<le> length (nodes g') \<and>
     (\<forall>x < length (nodes g). nodes g' ! x = nodes g ! x)"

definition grown :: "module_graph \<Rightarrow> module_graph \<Rightarrow> bool" where
  "grown g g' \<longleftrightarrow> length (nodes g) \<le> length (nodes g') \<and>
     (\<forall>x < length (nodes g).
        nodes g' ! x = (nodes g ! x)\<lparr>importers := importers (nodes g' ! x)\<rparr> \<and>
        set (importers (nodes g ! x)) \<subseteq> set (importers (nodes g' ! x)))"







text \<open>
  \<open>carried g g'\<close>: what the registry of \<open>g\<close> knows, \<open>g'\<close> still knows: the resolver is
  the same, the tasks are still there with their urls and flags, and every node of a
  pending cache or of the id index is still there under the same key.
\<close>

definition carried :: "module_graph \<Rightarrow> module_graph \<Rightarrow> bool" where
  "carried g g' \<longleftrightarrow>
     resolveId g' = resolveId g \<and> length (promises g) \<le> length (promises g') \<and>
     (\<forall>p < length (promises g).
        t_rawUrl (promises g' ! p) = t_rawUrl (promises g ! p) \<and>
        t_ssr (promises g' ! p) = t_ssr (promises g ! p)) \<and>
     (\<forall>u ssr a. getUnresolvedUrlToModule g u ssr = Some (Node a) \<longrightarrow>
        getUnresolvedUrlToModule g' u ssr = Some (Node a)) \<and>
     (\<forall>k b. map_of (idToModuleMap g) k = Some b \<longrightarrow> map_of (idToModuleMap g') k = Some b)"

subsection \<open>Concrete instances for the examples\<close>

text \<open>
  Modelled from the spec: an instance of the helpers for the examples. The stripping and
  normalising helpers are identities and no request is a direct css request, which is what
  the real helpers do on a path that has no query, no hash, no backslash and no empty or
  dot segment; the examples use only such paths. \<open>sample_extname\<close> is \<^verbatim>\<open>path.extname\<close>
  on posix paths: the part of the last segment (trailing slashes aside) from its last dot
  on, and nothing when that dot is the segment's first character or the segment is
  \<^verbatim>\<open>..\<close>.
\<close>

definition sample_extname :: "string \<Rightarrow> string" where
  "sample_extname p =
     (let base = rev (takeWhile (\<lambda>c. c \<noteq> CHR ''/'')
                        (dropWhile (\<lambda>c. c = CHR ''/'') (rev p)));
          ext = rev (takeWhile (\<lambda>c. c \<noteq> CHR ''.'') (rev base))
      in if CHR ''.'' \<notin> set base \<or> length ext + 1 = length base \<or> base = ''..''
         then [] else CHR ''.'' # ext)"

definition sample_env :: env where
  "sample_env =
     \<lparr> cleanUrl = takeWhile (\<lambda>c. c \<noteq> CHR ''?'' \<and> c \<noteq> CHR ''#''),
       normalizePath = (\<lambda>p. p),
       removeImportQuery = (\<lambda>u. u),
       removeTimestampQuery = (\<lambda>u. u),
       isDirectCSSRequest = (\<lambda>u. False),
       extname = sample_extname,
       FS_PREFIX = ''/@fs/'' \<rparr>"

text \<open>
  The chain A imports B imports C, at the addresses 0, 1 and 2, every node with a cached
  transform result; \<open>accepts\<close> says whether B lists C in its \<^verbatim>\<open>acceptedHmrDeps\<close>.
\<close>

definition chain_heap :: "bool \<Rightarrow> module_node list" where
  "chain_heap accepts =
     [(new_ModuleNode sample_env ''/A.js'' True)
        \<lparr>clientImportedModules := [1], transformResult := Some ''a''\<rparr>,
      (new_ModuleNode sample_env ''/B.js'' True)
        \<lparr>importers := [0], clientImportedModules := [2],
         acceptedHmrDeps := (if accepts then [2] else []), transformResult := Some ''b''\<rparr>,
      (new_ModuleNode sample_env ''/C.js'' True)
        \<lparr>importers := [1], transformResult := Some ''c'', lastHMRTimestamp := 10\<rparr>]"

definition chain_walk :: "bool \<Rightarrow> walk" where
  "chain_walk accepts = \<lparr>heap = chain_heap accepts, seen = [], visits = []\<rparr>"

text \<open>
  A resolver for the examples: two urls of one file, an import without its extension, a
  url on which the resolver's promise rejects, and null for everything else.
\<close>

definition sample_resolveId :: "string \<Rightarrow> bool \<Rightarrow> resolution" where
  "sample_resolveId u ssr =
     (if u = ''/src/a.js'' \<or> u = ''/@fs/root/src/a.js''
      then Resolves (Some \<lparr>pr_id = ''/root/src/a.js'', pr_meta = None\<rparr>)
      else if cleanUrl sample_env u = ''/src/App''
      then Resolves (Some \<lparr>pr_id = ''/root/src/App.vue'', pr_meta = None\<rparr>)
      else if u = ''/broken'' then Rejects
      else Resolves None)"

text \<open>The graph after the first, and after both urls of the one file have been requested.\<close>

definition first_graph :: module_graph where
  "first_graph =
     snd (ensureEntryFromUrl sample_env (new_ModuleGraph sample_resolveId) ''/src/a.js'' False True)"

definition alias_graph :: module_graph where
  "alias_graph =
     snd (ensureEntryFromUrl sample_env
            (snd (ensureEntryFromUrl sample_env (new_ModuleGraph sample_resolveId)
                    ''/src/a.js'' False True))
            ''/@fs/root/src/a.js'' False True)"

text \<open>
  The graph after \<^verbatim>\<open>/src/a.js\<close> was requested and a file-only entry was made for a
  stylesheet that has no url of its own.
\<close>

definition fileonly_graph :: module_graph where
  "fileonly_graph =
     snd (createFileOnlyEntry sample_env
            (snd (ensureEntryFromUrl sample_env (new_ModuleGraph sample_resolveId)
                    ''/src/a.js'' False True))
            ''/root/src/dep.css'')"

text \<open>
  A schedule: three calls for \<^verbatim>\<open>/src/a.js\<close>, one of them after its task has settled,
  and a call for another url in between.
\<close>

definition sample_schedule :: "event list" where
  "sample_schedule =
     [Call ''/src/a.js'' False True, Call ''/src/a.js'' False False, Call ''/broken'' False True,
      Settle 0, Call ''/src/a.js'' False True, Settle 1]"



text \<open>
  A project with both \<^verbatim>\<open>src/utils.js\<close> and \<^verbatim>\<open>src/utils/index.js\<close>: the import
  \<^verbatim>\<open>/src/utils\<close> resolves to the directory's index, and is served under the url
  \<^verbatim>\<open>/src/utils.js\<close>, which is also the url of the other file. \<open>crossing_graph\<close> is the
  graph after \<^verbatim>\<open>/src/utils.js\<close> was requested.
\<close>

definition crossing_resolveId :: "string \<Rightarrow> bool \<Rightarrow> resolution" where
  "crossing_resolveId u ssr =
     (if u = ''/src/utils'' \<or> u = ''/src/utils/index.js''
      then Resolves (Some \<lparr>pr_id = ''/root/src/utils/index.js'', pr_meta = None\<rparr>)
      else if u = ''/src/utils.js''
      then Resolves (Some \<lparr>pr_id = ''/root/src/utils.js'', pr_meta = None\<rparr>)
      else Resolves None)"

definition crossing_graph :: module_graph where
  "crossing_graph =
     snd (ensureEntryFromUrl sample_env (new_ModuleGraph crossing_resolveId)
            ''/src/utils.js'' False True)"

section \<open>Properties of the invalidation walk\<close>

lemma walked_refl: "walked t h w w []"
  by (simp add: walked_def)

lemma walked_trans:
  assumes "walked t h w w1 vs1" "walked t h w1 w2 vs2"
  shows "walked t h w w2 (vs1 @ vs2)"
  using assms unfolding walked_def
  by (auto simp: nth_append)

lemma walked_mark:
  assumes "m \<notin> set (seen w)" "m < length (heap w)"
  shows "walked t h w (w\<lparr>heap := (heap w)[m := clear_node t h (heap w ! m)],
                   seen := seen w @ [m], visits := visits w @ [m]\<rparr>) [m]"
  using assms unfolding walked_def by (auto simp: nth_list_update)

lemma walk_walked:
  "\<exists>vs. walked timestamp isHmr w (invalidateModule w modu timestamp isHmr hmrBoundaries) vs"
  "\<exists>vs. walked timestamp isHmr w (invalidateImporters w modu timestamp isHmr imps) vs"
proof (induct w modu timestamp isHmr hmrBoundaries and w modu timestamp isHmr imps
    rule: invalidateModule_invalidateImporters.induct)
  case (1 w modu timestamp isHmr hmrBoundaries)
  show ?case
  proof (cases "modu \<in> set (seen w) \<or> length (heap w) \<le> modu")
    case True
    then show ?thesis
      using walked_refl by (auto simp: invalidateModule.simps)
  next
    case False
    define w1 where "w1 = w\<lparr>heap := (heap w)[modu := clear_node timestamp isHmr (heap w ! modu)],
                   seen := seen w @ [modu], visits := visits w @ [modu]\<rparr>"
    have m: "walked timestamp isHmr w w1 [modu]"
      unfolding w1_def using False by (intro walked_mark) auto
    show ?thesis
    proof (cases "modu \<in> set hmrBoundaries")
      case True
      with False have "invalidateModule w modu timestamp isHmr hmrBoundaries = w1"
        by (simp add: invalidateModule.simps w1_def Let_def)
      with m show ?thesis by auto
    next
      case nb: False
      with False have e: "invalidateModule w modu timestamp isHmr hmrBoundaries =
          invalidateImporters w1 modu timestamp isHmr (importers (heap w1 ! modu))"
        by (simp add: invalidateModule.simps w1_def Let_def)
      from 1[OF _ _ w1_def nb] False
      obtain vs where "walked timestamp isHmr w1
          (invalidateImporters w1 modu timestamp isHmr (importers (heap w1 ! modu))) vs"
        by auto
      with m e show ?thesis using walked_trans by metis
    qed
  qed
next
  case (2 w modu timestamp isHmr)
  then show ?case using walked_refl by auto
next
  case (3 w modu timestamp isHmr importer rest)
  define w' where "w' = (if length (heap w) \<le> importer then w
        else if modu \<in> set (acceptedHmrDeps (heap w ! importer)) then w
        else invalidateModule w importer timestamp isHmr [])"
  have "\<exists>vs. walked timestamp isHmr w w' vs"
    using 3(1) walked_refl by (auto simp: w'_def)
  moreover have "\<exists>vs. walked timestamp isHmr w' (invalidateImporters w' modu timestamp isHmr rest) vs"
    using 3(2) by (simp add: w'_def)
  moreover have "invalidateImporters w modu timestamp isHmr (importer # rest) =
      invalidateImporters w' modu timestamp isHmr rest"
    by (simp add: w'_def)
  ultimately show ?case using walked_trans by metis
qed

lemma clear_node_fields [simp]:
  "transformResult (clear_node t h n) = None"
  "ssrTransformResult (clear_node t h n) = None"
  "ssrModule (clear_node t h n) = None"
  "ssrError (clear_node t h n) = None"
  "importers (clear_node t h n) = importers n"
  "acceptedHmrDeps (clear_node t h n) = acceptedHmrDeps n"
  "bookkeeping (clear_node t h n) = bookkeeping n"
  "lastHMRTimestamp (clear_node t h n) = (if h then t else lastHMRTimestamp n)"
  "lastInvalidationTimestamp (clear_node t h n) = (if h then lastInvalidationTimestamp n else t)"
  by (simp_all add: clear_node_def bookkeeping_def)

lemma invalidateModule_target:
  assumes "modu \<notin> set (seen w)" "modu < length (heap w)"
  shows "\<exists>vs. walked timestamp isHmr w (invalidateModule w modu timestamp isHmr hmrBoundaries) (modu # vs)"
proof -
  define w1 where "w1 = w\<lparr>heap := (heap w)[modu := clear_node timestamp isHmr (heap w ! modu)],
                   seen := seen w @ [modu], visits := visits w @ [modu]\<rparr>"
  have m: "walked timestamp isHmr w w1 [modu]"
    unfolding w1_def using assms by (intro walked_mark) auto
  have "invalidateModule w modu timestamp isHmr hmrBoundaries = w1 \<or>
        invalidateModule w modu timestamp isHmr hmrBoundaries =
          invalidateImporters w1 modu timestamp isHmr (importers (heap w1 ! modu))"
    using assms by (simp add: invalidateModule.simps w1_def Let_def)
  then obtain vs where "walked timestamp isHmr w1 (invalidateModule w modu timestamp isHmr hmrBoundaries) vs"
    using walk_walked(2)[of timestamp isHmr w1 modu] walked_refl[of timestamp isHmr w1] by metis
  from walked_trans[OF m this] show ?thesis by auto
qed


lemma invalidateModule_unfold:
  assumes "modu \<notin> set (seen w)" "modu < length (heap w)" "modu \<notin> set hmrBoundaries"
  shows "invalidateModule w modu timestamp isHmr hmrBoundaries =
     invalidateImporters
       (w\<lparr>heap := (heap w)[modu := clear_node timestamp isHmr (heap w ! modu)],
          seen := seen w @ [modu], visits := visits w @ [modu]\<rparr>)
       modu timestamp isHmr (importers (heap w ! modu))"
  using assms by (simp add: invalidateModule.simps Let_def)


lemma walked_seen_frame:
  assumes "walked t h w w' vs" "a \<in> set (seen w)" "a < length (heap w)"
  shows "heap w' ! a = heap w ! a"
  using assms unfolding walked_def by auto

lemma invalidateModule_covers:
  assumes "modu < length (heap w)"
  shows "modu \<in> set (seen (invalidateModule w modu timestamp isHmr hmrBoundaries))"
proof (cases "modu \<in> set (seen w)")
  case True
  then show ?thesis by (simp add: invalidateModule.simps)
next
  case False
  from invalidateModule_target[OF False assms, of timestamp isHmr hmrBoundaries]
  show ?thesis unfolding walked_def by auto
qed

lemma fold_invalidate_walked:
  "\<exists>vs. walked timestamp isHmr w
          (fold (\<lambda>(i, modu) w. invalidateModule w modu timestamp isHmr []) xs w) vs \<and>
        (\<forall>(i, modu) \<in> set xs. modu < length (heap w) \<longrightarrow> modu \<in> set (seen w) \<union> set vs)"
proof (induction xs arbitrary: w)
  case Nil
  then show ?case using walked_refl by auto
next
  case (Cons x xs)
  obtain i modu where x: "x = (i, modu)" by (cases x)
  define w1 where "w1 = invalidateModule w modu timestamp isHmr []"
  obtain vs1 where v1: "walked timestamp isHmr w w1 vs1"
    using walk_walked(1) unfolding w1_def by blast
  obtain vs2 where v2: "walked timestamp isHmr w1
      (fold (\<lambda>(i, modu) w. invalidateModule w modu timestamp isHmr []) xs w1) vs2"
    and c2: "\<forall>(i, modu) \<in> set xs. modu < length (heap w1) \<longrightarrow> modu \<in> set (seen w1) \<union> set vs2"
    using Cons.IH[of w1] by blast
  have s1: "seen w1 = seen w @ vs1" "length (heap w1) = length (heap w)"
    using v1 unfolding walked_def by auto
  have m: "modu < length (heap w) \<longrightarrow> modu \<in> set (seen w1)"
    unfolding w1_def using invalidateModule_covers by blast
  have "walked timestamp isHmr w
      (fold (\<lambda>(i, modu) w. invalidateModule w modu timestamp isHmr []) (x # xs) w) (vs1 @ vs2)"
    using walked_trans[OF v1 v2] by (simp add: x w1_def)
  moreover have "\<forall>(i, modu) \<in> set (x # xs). modu < length (heap w) \<longrightarrow>
      modu \<in> set (seen w) \<union> set (vs1 @ vs2)"
    using c2 m s1 x by auto
  ultimately show ?case by blast
qed


lemma walked_stamps:
  assumes "walked t h w w' vs" "a < length (heap w)"
  shows "lastHMRTimestamp (heap w' ! a) =
           (if a \<in> set (seen w') \<and> a \<notin> set (seen w) \<and> h then t else lastHMRTimestamp (heap w ! a))"
    and "lastInvalidationTimestamp (heap w' ! a) =
           (if a \<in> set (seen w') \<and> a \<notin> set (seen w) \<and> \<not> h then t
            else lastInvalidationTimestamp (heap w ! a))"
  using assms unfolding walked_def by auto

lemma invalidateEach_exact:
  "length (heap (invalidateEach w ms now k)) = length (heap w) \<and>
   set (seen w) \<subseteq> set (seen (invalidateEach w ms now k)) \<and>
   (\<forall>m \<in> set ms. m < length (heap w) \<longrightarrow> m \<in> set (seen (invalidateEach w ms now k))) \<and>
   (\<forall>a < length (heap w).
      if a \<in> set (seen (invalidateEach w ms now k)) \<and> a \<notin> set (seen w)
      then \<exists>j. k \<le> j \<and> j < k + length ms \<and>
               heap (invalidateEach w ms now k) ! a = clear_node (now j) False (heap w ! a)
      else heap (invalidateEach w ms now k) ! a = heap w ! a)"
proof (induction ms arbitrary: w k)
  case Nil
  then show ?case by simp
next
  case (Cons m ms)
  define w1 where "w1 = invalidateModule w m (now k) False []"
  obtain vs1 where v1: "walked (now k) False w w1 vs1"
    using walk_walked(1) unfolding w1_def by blast
  have e: "invalidateEach w (m # ms) now k = invalidateEach w1 ms now (Suc k)"
    by (simp add: w1_def)
  note ih = Cons.IH[of w1 "Suc k"]
  have l: "length (heap w1) = length (heap w)" "seen w1 = seen w @ vs1"
    "set vs1 \<inter> set (seen w) = {}"
    using v1 unfolding walked_def by auto
  have c: "m < length (heap w) \<longrightarrow> m \<in> set (seen w1)"
    unfolding w1_def using invalidateModule_covers by blast
  show ?case
  proof (intro conjI allI impI ballI)
    show "length (heap (invalidateEach w (m # ms) now k)) = length (heap w)"
      using ih l unfolding e by simp
    show "set (seen w) \<subseteq> set (seen (invalidateEach w (m # ms) now k))"
      using ih l unfolding e by auto
  next
    fix x assume "x \<in> set (m # ms)" "x < length (heap w)"
    then show "x \<in> set (seen (invalidateEach w (m # ms) now k))"
      using ih l c unfolding e by auto
  next
    fix a assume a: "a < length (heap w)"
    have a1: "a < length (heap w1)" using a l by simp
    from ih a1 have s: "if a \<in> set (seen (invalidateEach w1 ms now (Suc k))) \<and> a \<notin> set (seen w1)
      then \<exists>j. Suc k \<le> j \<and> j < Suc k + length ms \<and>
               heap (invalidateEach w1 ms now (Suc k)) ! a = clear_node (now j) False (heap w1 ! a)
      else heap (invalidateEach w1 ms now (Suc k)) ! a = heap w1 ! a"
      by blast
    have sub: "set (seen w1) \<subseteq> set (seen (invalidateEach w1 ms now (Suc k)))" using ih by simp
    show "if a \<in> set (seen (invalidateEach w (m # ms) now k)) \<and> a \<notin> set (seen w)
      then \<exists>j. k \<le> j \<and> j < k + length (m # ms) \<and>
               heap (invalidateEach w (m # ms) now k) ! a = clear_node (now j) False (heap w ! a)
      else heap (invalidateEach w (m # ms) now k) ! a = heap w ! a"
    proof (cases "a \<in> set vs1")
      case True
      then have h1: "heap w1 ! a = clear_node (now k) False (heap w ! a)"
        using v1 a unfolding walked_def by auto
      have in1: "a \<in> set (seen w1)" "a \<notin> set (seen w)" using True l by auto
      with s have "heap (invalidateEach w1 ms now (Suc k)) ! a = heap w1 ! a" by simp
      with h1 in1 sub show ?thesis unfolding e by (auto intro!: exI[of _ k])
    next
      case False
      then have q: "heap w1 ! a = heap w ! a"
        using v1 a unfolding walked_def by auto
      have iff: "a \<in> set (seen w1) \<longleftrightarrow> a \<in> set (seen w)" using False l by auto
      show ?thesis
      proof (cases "a \<in> set (seen (invalidateEach w1 ms now (Suc k))) \<and> a \<notin> set (seen w1)")
        case True
        with s obtain j where "Suc k \<le> j" "j < Suc k + length ms"
          "heap (invalidateEach w1 ms now (Suc k)) ! a = clear_node (now j) False (heap w1 ! a)"
          by auto
        then have "k \<le> j \<and> j < k + length (m # ms) \<and>
               heap (invalidateEach w (m # ms) now k) ! a = clear_node (now j) False (heap w ! a)"
          unfolding e q by simp
        with True iff show ?thesis unfolding e by auto
      next
        case False
        with s have "heap (invalidateEach w1 ms now (Suc k)) ! a = heap w ! a" using q by simp
        with False iff sub show ?thesis unfolding e by auto
      qed
    qed
  qed
qed






section \<open>Basic facts\<close>

lemma update_lookup [simp]: "map_of (AList.update k v al) k = Some v"
  by (simp add: update_conv')


section \<open>The examples, evaluated\<close>

lemmas eval_defs = ensureEntryFromUrl_def internal_ensureEntryFromUrl_def ensureEntry_begin_def
  ensureEntry_resume_def await_handle_def getUnresolvedUrlToModule_def setUnresolvedUrlToModule_def
  resolveUrl_finish_def register_new_node_def new_ModuleGraph_def new_ModuleNode_def
  sample_env_def sample_resolveId_def sample_extname_def set_add_def Let_def
  resolveUrl_def internal_resolveUrl_def

lemma alias_graph_eval: "alias_graph = 
  \<lparr>nodes = [(new_ModuleNode sample_env ''/src/a.js'' True)
               \<lparr>id_m := Some ''/root/src/a.js'', file_m := Some ''/root/src/a.js''\<rparr>],
    urlToModuleMap = [(''/src/a.js'', 0), (''/@fs/root/src/a.js'', 0)],
    idToModuleMap = [(''/root/src/a.js'', 0)],
    fileToModulesMap = [(''/root/src/a.js'', [0])], safeModulesPath = [],
    unresolvedUrlToModuleMap = [(''/src/a.js'', Node 0), (''/@fs/root/src/a.js'', Node 0)],
    ssrUnresolvedUrlToModuleMap = [], resolveId = sample_resolveId,
    promises = [\<lparr>t_rawUrl = ''/src/a.js'', t_ssr = False, t_setIsSelfAccepting = True,
                  t_resolved = None, t_state = Fulfilled 0\<rparr>,
                \<lparr>t_rawUrl = ''/@fs/root/src/a.js'', t_ssr = False, t_setIsSelfAccepting = True,
                  t_resolved = None, t_state = Fulfilled 0\<rparr>],
    resolveCalls = [(''/src/a.js'', False), (''/@fs/root/src/a.js'', False)]\<rparr>"
  by (simp add: alias_graph_def eval_defs prefix_def suffix_def)

lemma fileonly_graph_eval: "fileonly_graph =
  \<lparr>nodes = [(new_ModuleNode sample_env ''/src/a.js'' True)
               \<lparr>id_m := Some ''/root/src/a.js'', file_m := Some ''/root/src/a.js''\<rparr>,
            (new_ModuleNode sample_env ''/@fs//root/src/dep.css'' True)
               \<lparr>file_m := Some ''/root/src/dep.css''\<rparr>],
    urlToModuleMap = [(''/src/a.js'', 0)],
    idToModuleMap = [(''/root/src/a.js'', 0)],
    fileToModulesMap = [(''/root/src/a.js'', [0]), (''/root/src/dep.css'', [1])],
    safeModulesPath = [],
    unresolvedUrlToModuleMap = [(''/src/a.js'', Node 0)],
    ssrUnresolvedUrlToModuleMap = [], resolveId = sample_resolveId,
    promises = [\<lparr>t_rawUrl = ''/src/a.js'', t_ssr = False, t_setIsSelfAccepting = True,
                  t_resolved = None, t_state = Fulfilled 0\<rparr>],
    resolveCalls = [(''/src/a.js'', False)]\<rparr>"
  by (simp add: fileonly_graph_def createFileOnlyEntry_def eval_defs prefix_def suffix_def)



lemmas crossing_defs = eval_defs crossing_resolveId_def crossing_graph_def

section \<open>Properties of the registry\<close>

lemma registry_ok_lookup:
  "registry_ok e g \<longleftrightarrow>
     distinct (map fst (unresolvedUrlToModuleMap g)) \<and>
     distinct (map fst (ssrUnresolvedUrlToModuleMap g)) \<and>
     (\<forall>u ssr h. getUnresolvedUrlToModule g u ssr = Some h \<longrightarrow> handle_ok e g u ssr h) \<and>
     (\<forall>p < length (promises g). task_ok g p (promises g ! p))"
proof -
  have d: "list_all (\<lambda>(p, t). task_ok g p t) (enumerate 0 (promises g)) \<longleftrightarrow>
      (\<forall>p < length (promises g). task_ok g p (promises g ! p))"
    by (auto simp: list_all_iff in_set_enumerate_eq)
  have a: "distinct (map fst (unresolvedUrlToModuleMap g)) \<Longrightarrow>
      list_all (\<lambda>(u, h). handle_ok e g u False h) (unresolvedUrlToModuleMap g) \<longleftrightarrow>
      (\<forall>u h. getUnresolvedUrlToModule g u False = Some h \<longrightarrow> handle_ok e g u False h)"
    by (auto simp: getUnresolvedUrlToModule_def list_all_iff)
  have b: "distinct (map fst (ssrUnresolvedUrlToModuleMap g)) \<Longrightarrow>
      list_all (\<lambda>(u, h). handle_ok e g u True h) (ssrUnresolvedUrlToModuleMap g) \<longleftrightarrow>
      (\<forall>u h. getUnresolvedUrlToModule g u True = Some h \<longrightarrow> handle_ok e g u True h)"
    by (auto simp: getUnresolvedUrlToModule_def list_all_iff)
  have c: "(\<forall>u ssr h. getUnresolvedUrlToModule g u ssr = Some h \<longrightarrow> handle_ok e g u ssr h) \<longleftrightarrow>
      (\<forall>u h. getUnresolvedUrlToModule g u False = Some h \<longrightarrow> handle_ok e g u False h) \<and>
      (\<forall>u h. getUnresolvedUrlToModule g u True = Some h \<longrightarrow> handle_ok e g u True h)"
    by (metis (full_types))
  show ?thesis
    unfolding registry_ok_def c d using a b by auto
qed

lemma get_set_unresolved [simp]:
  "getUnresolvedUrlToModule (setUnresolvedUrlToModule g u h ssr) u' ssr' =
     (if u' = u \<and> ssr' = ssr then Some h else getUnresolvedUrlToModule g u' ssr')"
  by (auto simp: getUnresolvedUrlToModule_def setUnresolvedUrlToModule_def update_conv')

lemma get_unresolved_frame [simp]:
  "getUnresolvedUrlToModule (g\<lparr>promises := ps\<rparr>) = getUnresolvedUrlToModule g"
  "getUnresolvedUrlToModule (g\<lparr>resolveCalls := rc\<rparr>) = getUnresolvedUrlToModule g"
  "getUnresolvedUrlToModule (g\<lparr>nodes := ns\<rparr>) = getUnresolvedUrlToModule g"
  "getUnresolvedUrlToModule (g\<lparr>urlToModuleMap := um\<rparr>) = getUnresolvedUrlToModule g"
  "getUnresolvedUrlToModule (g\<lparr>idToModuleMap := im\<rparr>) = getUnresolvedUrlToModule g"
  "getUnresolvedUrlToModule (g\<lparr>fileToModulesMap := fm\<rparr>) = getUnresolvedUrlToModule g"
  by (simp_all add: getUnresolvedUrlToModule_def fun_eq_iff)

lemma set_unresolved_fields [simp]:
  "nodes (setUnresolvedUrlToModule g u h ssr) = nodes g"
  "urlToModuleMap (setUnresolvedUrlToModule g u h ssr) = urlToModuleMap g"
  "idToModuleMap (setUnresolvedUrlToModule g u h ssr) = idToModuleMap g"
  "fileToModulesMap (setUnresolvedUrlToModule g u h ssr) = fileToModulesMap g"
  "promises (setUnresolvedUrlToModule g u h ssr) = promises g"
  "resolveCalls (setUnresolvedUrlToModule g u h ssr) = resolveCalls g"
  "resolveId (setUnresolvedUrlToModule g u h ssr) = resolveId g"
  "distinct (map fst (unresolvedUrlToModuleMap g)) \<Longrightarrow>
     distinct (map fst (unresolvedUrlToModuleMap (setUnresolvedUrlToModule g u h ssr)))"
  "distinct (map fst (ssrUnresolvedUrlToModuleMap g)) \<Longrightarrow>
     distinct (map fst (ssrUnresolvedUrlToModuleMap (setUnresolvedUrlToModule g u h ssr)))"
  by (simp_all add: setUnresolvedUrlToModule_def distinct_update)


lemma resume_idle:
  "length (promises g) \<le> p \<or> t_state (promises g ! p) \<noteq> Pending \<Longrightarrow> ensureEntry_resume e g p = g"
  by (auto simp: ensureEntry_resume_def Let_def)

lemma resume_rejects:
  assumes "p < length (promises g)" "t_state (promises g ! p) = Pending"
    "t_resolved (promises g ! p) = None"
    "resolveId g (t_rawUrl (promises g ! p)) (t_ssr (promises g ! p)) = Rejects"
  shows "ensureEntry_resume e g p =
           g\<lparr>promises := (promises g)[p := (promises g ! p)\<lparr>t_state := Rejected\<rparr>]\<rparr>"
  using assms by (simp add: ensureEntry_resume_def Let_def)

lemma resume_found:
  assumes "p < length (promises g)" "t_state (promises g ! p) = Pending"
    "t_resolved (promises g ! p) = None"
    "resolveId g (t_rawUrl (promises g ! p)) (t_ssr (promises g ! p)) = Resolves r"
    "resolveUrl_finish e (t_rawUrl (promises g ! p)) r = (u, i, m)"
    "map_of (idToModuleMap g) i = Some a"
  shows "ensureEntry_resume e g p =
           (setUnresolvedUrlToModule
              (if map_of (urlToModuleMap g) u = None
               then g\<lparr>urlToModuleMap := AList.update u a (urlToModuleMap g)\<rparr> else g)
              (t_rawUrl (promises g ! p)) (Node a) (t_ssr (promises g ! p)))
           \<lparr>promises := (promises g)[p := (promises g ! p)\<lparr>t_state := Fulfilled a\<rparr>]\<rparr>"
  using assms by (simp add: ensureEntry_resume_def Let_def)

lemma resume_created:
  assumes "p < length (promises g)" "t_state (promises g ! p) = Pending"
    "t_resolved (promises g ! p) = None"
    "resolveId g (t_rawUrl (promises g ! p)) (t_ssr (promises g ! p)) = Resolves r"
    "resolveUrl_finish e (t_rawUrl (promises g ! p)) r = (u, i, m)"
    "map_of (idToModuleMap g) i = None"
  shows "ensureEntry_resume e g p =
           (setUnresolvedUrlToModule
              (snd (register_new_node e g u i m (t_setIsSelfAccepting (promises g ! p))))
              (t_rawUrl (promises g ! p)) (Node (length (nodes g))) (t_ssr (promises g ! p)))
           \<lparr>promises := (promises g)[p := (promises g ! p)\<lparr>t_state := Fulfilled (length (nodes g))\<rparr>]\<rparr>"
  using assms by (simp add: ensureEntry_resume_def register_new_node_def Let_def)

lemma register_new_node_fields [simp]:
  "nodes (snd (register_new_node e g u i m sia)) =
     nodes g @ [(new_ModuleNode e u sia)\<lparr>meta := m, id_m := Some i, file_m := Some (cleanUrl e i)\<rparr>]"
  "urlToModuleMap (snd (register_new_node e g u i m sia)) = AList.update u (length (nodes g)) (urlToModuleMap g)"
  "idToModuleMap (snd (register_new_node e g u i m sia)) = AList.update i (length (nodes g)) (idToModuleMap g)"
  "promises (snd (register_new_node e g u i m sia)) = promises g"
  "resolveCalls (snd (register_new_node e g u i m sia)) = resolveCalls g"
  "resolveId (snd (register_new_node e g u i m sia)) = resolveId g"
  "unresolvedUrlToModuleMap (snd (register_new_node e g u i m sia)) = unresolvedUrlToModuleMap g"
  "ssrUnresolvedUrlToModuleMap (snd (register_new_node e g u i m sia)) = ssrUnresolvedUrlToModuleMap g"
  "getUnresolvedUrlToModule (snd (register_new_node e g u i m sia)) = getUnresolvedUrlToModule g"
  by (simp_all add: register_new_node_def Let_def getUnresolvedUrlToModule_def fun_eq_iff)

text \<open>A sufficient condition for the consistency of one cache value to carry over.\<close>

lemma handle_ok_carry:
  assumes "handle_ok e g u ssr h"
    and "resolveId g' = resolveId g"
    and "\<And>k b. map_of (idToModuleMap g) k = Some b \<Longrightarrow> map_of (idToModuleMap g') k = Some b"
    and "length (promises g) \<le> length (promises g')"
    and "\<And>q. h = Promise q \<Longrightarrow> q < length (promises g) \<Longrightarrow> t_rawUrl (promises g ! q) = u \<Longrightarrow>
           t_ssr (promises g ! q) = ssr \<Longrightarrow> (\<forall>a. t_state (promises g ! q) \<noteq> Fulfilled a) \<Longrightarrow>
           t_rawUrl (promises g' ! q) = u \<and> t_ssr (promises g' ! q) = ssr \<and>
           (\<forall>a. t_state (promises g' ! q) \<noteq> Fulfilled a)"
  shows "handle_ok e g' u ssr h"
proof (cases h)
  case (Node a)
  with assms(1,2,3) show ?thesis
    unfolding handle_ok_def resolved_id_def
    by (auto split: option.splits resolution.splits)
next
  case (Promise q)
  with assms(1) have q: "q < length (promises g)" "t_rawUrl (promises g ! q) = u"
    "t_ssr (promises g ! q) = ssr" "\<forall>a. t_state (promises g ! q) \<noteq> Fulfilled a"
    unfolding handle_ok_def by (auto split: promise_state.splits)
  from assms(5)[OF Promise q] assms(4) q(1) Promise show ?thesis
    unfolding handle_ok_def by (auto split: promise_state.splits)
qed

lemma resume_ok:
  assumes ok: "registry_ok e g"
  shows "registry_ok e (ensureEntry_resume e g p)"
proof (cases "length (promises g) \<le> p \<or> t_state (promises g ! p) \<noteq> Pending")
  case True
  then show ?thesis using ok by (simp add: resume_idle)
next
  case False
  define t where "t = promises g ! p"
  have p: "p < length (promises g)" "t_state t = Pending" using False by (auto simp: t_def)
  have inv: "distinct (map fst (unresolvedUrlToModuleMap g))"
    "distinct (map fst (ssrUnresolvedUrlToModuleMap g))"
    "\<And>u ssr h. getUnresolvedUrlToModule g u ssr = Some h \<Longrightarrow> handle_ok e g u ssr h"
    "\<And>q. q < length (promises g) \<Longrightarrow> task_ok g q (promises g ! q)"
    using ok unfolding registry_ok_lookup by auto
  have tk: "task_ok g p t" using inv(4) p(1) by (simp add: t_def)
  have tr: "t_resolved t = None" using tk by (simp add: task_ok_def)
  have tc: "getUnresolvedUrlToModule g (t_rawUrl t) (t_ssr t) = Some (Promise p)"
    using tk p(2) by (simp add: task_ok_def)
  have other: "\<And>q. q < length (promises g) \<Longrightarrow> q \<noteq> p \<Longrightarrow>
      \<not> (t_rawUrl (promises g ! q) = t_rawUrl t \<and> t_ssr (promises g ! q) = t_ssr t)"
  proof
    fix q assume q: "q < length (promises g)" "q \<noteq> p"
      and k: "t_rawUrl (promises g ! q) = t_rawUrl t \<and> t_ssr (promises g ! q) = t_ssr t"
    from inv(4)[OF q(1)] k tc q(2) show False
      by (auto simp: task_ok_def split: promise_state.splits)
  qed
  show ?thesis
  proof (cases "resolveId g (t_rawUrl t) (t_ssr t)")
    case Rejects
    have e: "ensureEntry_resume e g p = g\<lparr>promises := (promises g)[p := t\<lparr>t_state := Rejected\<rparr>]\<rparr>"
      using resume_rejects[OF p(1)] p(2) tr Rejects by (simp add: t_def)
    show ?thesis
      unfolding e registry_ok_lookup
    proof (intro conjI allI impI ballI)
      fix u ssr h
      assume "getUnresolvedUrlToModule (g\<lparr>promises := (promises g)[p := t\<lparr>t_state := Rejected\<rparr>]\<rparr>) u ssr = Some h"
      then have "handle_ok e g u ssr h" using inv(3) by simp
      then show "handle_ok e (g\<lparr>promises := (promises g)[p := t\<lparr>t_state := Rejected\<rparr>]\<rparr>) u ssr h"
        by (rule handle_ok_carry) (use p(1) in \<open>auto simp: nth_list_update t_def\<close>)
    next
      fix q assume "q < length (promises (g\<lparr>promises := (promises g)[p := t\<lparr>t_state := Rejected\<rparr>]\<rparr>))"
      then have q: "q < length (promises g)" by simp
      show "task_ok (g\<lparr>promises := (promises g)[p := t\<lparr>t_state := Rejected\<rparr>]\<rparr>) q
              (promises (g\<lparr>promises := (promises g)[p := t\<lparr>t_state := Rejected\<rparr>]\<rparr>) ! q)"
        using inv(4)[OF q] p(1) tr tc
        by (auto simp: task_ok_def nth_list_update t_def)
    qed (use inv in simp_all)
  next
    case (Resolves r)
    obtain u i m where f: "resolveUrl_finish e (t_rawUrl t) r = (u, i, m)"
      by (cases "resolveUrl_finish e (t_rawUrl t) r") auto
    have rid: "resolved_id e g (t_rawUrl t) (t_ssr t) = Some i"
      using Resolves f by (simp add: resolved_id_def)
    define a where "a = (case map_of (idToModuleMap g) i of None \<Rightarrow> length (nodes g) | Some b \<Rightarrow> b)"
    define g1 where "g1 = (case map_of (idToModuleMap g) i of
        None \<Rightarrow> snd (register_new_node e g u i m (t_setIsSelfAccepting t))
      | Some b \<Rightarrow> (if map_of (urlToModuleMap g) u = None
               then g\<lparr>urlToModuleMap := AList.update u b (urlToModuleMap g)\<rparr> else g))"
    have e: "ensureEntry_resume e g p =
        (setUnresolvedUrlToModule g1 (t_rawUrl t) (Node a) (t_ssr t))
           \<lparr>promises := (promises g)[p := t\<lparr>t_state := Fulfilled a\<rparr>]\<rparr>"
    proof (cases "map_of (idToModuleMap g) i")
      case None
      then show ?thesis
        using resume_created[where e=e and r=r and u=u and i=i and m=m, OF p(1)] p(2) tr Resolves f
        by (simp add: t_def a_def g1_def)
    next
      case (Some b)
      then show ?thesis
        using resume_found[where e=e and r=r and u=u and i=i and m=m and a=b, OF p(1)] p(2) tr Resolves f
        by (simp add: t_def a_def g1_def)
    qed
    have g1: "resolveId g1 = resolveId g" "promises g1 = promises g"
      "getUnresolvedUrlToModule g1 = getUnresolvedUrlToModule g"
      "unresolvedUrlToModuleMap g1 = unresolvedUrlToModuleMap g"
      "ssrUnresolvedUrlToModuleMap g1 = ssrUnresolvedUrlToModuleMap g"
      "map_of (idToModuleMap g1) i = Some a"
      "\<And>k b. map_of (idToModuleMap g) k = Some b \<Longrightarrow> map_of (idToModuleMap g1) k = Some b"
      by (auto simp: g1_def a_def update_conv' getUnresolvedUrlToModule_def fun_eq_iff
               split: option.splits)
    define g' where "g' = (setUnresolvedUrlToModule g1 (t_rawUrl t) (Node a) (t_ssr t))
           \<lparr>promises := (promises g)[p := t\<lparr>t_state := Fulfilled a\<rparr>]\<rparr>"
    have g': "resolveId g' = resolveId g" "idToModuleMap g' = idToModuleMap g1"
      "promises g' = (promises g)[p := t\<lparr>t_state := Fulfilled a\<rparr>]"
      by (simp_all add: g'_def g1)
    show ?thesis
      unfolding e g'_def[symmetric] registry_ok_lookup
    proof (intro conjI allI impI ballI)
      show "distinct (map fst (unresolvedUrlToModuleMap g'))"
        using inv(1) g1(4) set_unresolved_fields(8)[of g1] by (simp add: g'_def)
      show "distinct (map fst (ssrUnresolvedUrlToModuleMap g'))"
        using inv(2) g1(5) set_unresolved_fields(9)[of g1] by (simp add: g'_def)
    next
      fix u' ssr' h
      assume l: "getUnresolvedUrlToModule g' u' ssr' = Some h"
      show "handle_ok e g' u' ssr' h"
      proof (cases "u' = t_rawUrl t \<and> ssr' = t_ssr t")
        case True
        with l have "h = Node a" by (simp add: g'_def)
        then show ?thesis
          using True rid g1(6) g'(1,2) by (simp add: handle_ok_def resolved_id_def)
      next
        case False
        with l have "getUnresolvedUrlToModule g u' ssr' = Some h" by (auto simp: g'_def g1(3))
        then have "handle_ok e g u' ssr' h" by (rule inv(3))
        then show ?thesis
        proof (rule handle_ok_carry)
          fix q assume "q < length (promises g)" "t_rawUrl (promises g ! q) = u'"
            "t_ssr (promises g ! q) = ssr'" "\<forall>a. t_state (promises g ! q) \<noteq> Fulfilled a"
          moreover from this False have "q \<noteq> p" by (auto simp: t_def)
          ultimately show "t_rawUrl (promises g' ! q) = u' \<and> t_ssr (promises g' ! q) = ssr' \<and>
             (\<forall>a. t_state (promises g' ! q) \<noteq> Fulfilled a)"
            by (simp add: g'(3))
        qed (use g1(7) g' in auto)
      qed
    next
      fix q assume "q < length (promises g')"
      then have q: "q < length (promises g)" by (simp add: g'(3))
      show "task_ok g' q (promises g' ! q)"
      proof (cases "q = p")
        case True
        then show ?thesis
          using p(1) tr by (simp add: task_ok_def g'(3)) (simp add: g'_def)
      next
        case False
        with other[OF q] inv(4)[OF q] p(1) show ?thesis
          by (auto simp: task_ok_def g'(3) g'_def g1(3))
      qed
    qed
  qed
qed

lemma resume_outcome:
  assumes ok: "registry_ok e g"
    and p: "p < length (promises g)" "t_state (promises g ! p) = Pending"
  shows "resolveId (ensureEntry_resume e g p) = resolveId g \<and>
         length (promises (ensureEntry_resume e g p)) = length (promises g) \<and>
         (\<forall>k b. map_of (idToModuleMap g) k = Some b \<longrightarrow>
                map_of (idToModuleMap (ensureEntry_resume e g p)) k = Some b) \<and>
         (case resolved_id e g (t_rawUrl (promises g ! p)) (t_ssr (promises g ! p)) of
            None \<Rightarrow> t_state (promises (ensureEntry_resume e g p) ! p) = Rejected
          | Some i \<Rightarrow>
              (\<exists>a. t_state (promises (ensureEntry_resume e g p) ! p) = Fulfilled a \<and>
                   map_of (idToModuleMap (ensureEntry_resume e g p)) i = Some a \<and>
                   getUnresolvedUrlToModule (ensureEntry_resume e g p)
                     (t_rawUrl (promises g ! p)) (t_ssr (promises g ! p)) = Some (Node a) \<and>
                   (case map_of (idToModuleMap g) i of
                      Some b \<Rightarrow> nodes (ensureEntry_resume e g p) = nodes g
                    | None \<Rightarrow> created_at e g (ensureEntry_resume e g p) i a)))"
proof -
  define t where "t = promises g ! p"
  have tr: "t_resolved t = None"
    using ok p(1) unfolding registry_ok_lookup t_def task_ok_def by auto
  show ?thesis
  proof (cases "resolveId g (t_rawUrl t) (t_ssr t)")
    case Rejects
    have e: "ensureEntry_resume e g p = g\<lparr>promises := (promises g)[p := t\<lparr>t_state := Rejected\<rparr>]\<rparr>"
      using resume_rejects[OF p(1)] p(2) tr Rejects by (simp add: t_def)
    show ?thesis
      unfolding e using p(1) Rejects by (simp add: resolved_id_def t_def)
  next
    case (Resolves r)
    obtain u i m where f: "resolveUrl_finish e (t_rawUrl t) r = (u, i, m)"
      by (cases "resolveUrl_finish e (t_rawUrl t) r") auto
    have rid: "resolved_id e g (t_rawUrl (promises g ! p)) (t_ssr (promises g ! p)) = Some i"
      using Resolves f by (simp add: resolved_id_def t_def)
    show ?thesis
    proof (cases "map_of (idToModuleMap g) i")
      case None
      have e: "ensureEntry_resume e g p =
           (setUnresolvedUrlToModule
              (snd (register_new_node e g u i m (t_setIsSelfAccepting t)))
              (t_rawUrl t) (Node (length (nodes g))) (t_ssr t))
           \<lparr>promises := (promises g)[p := t\<lparr>t_state := Fulfilled (length (nodes g))\<rparr>]\<rparr>"
        using resume_created[where e=e and r=r and u=u and i=i and m=m, OF p(1)] p(2) tr Resolves f None
        by (simp add: t_def)
      have c: "created_at e g (ensureEntry_resume e g p) i (length (nodes g))"
        unfolding e created_at_def
        by (simp add: register_new_node_def Let_def update_conv' new_ModuleNode_def set_add_def
              setUnresolvedUrlToModule_def)
      have mono: "\<forall>k b. map_of (idToModuleMap g) k = Some b \<longrightarrow>
                map_of (idToModuleMap (ensureEntry_resume e g p)) k = Some b"
        unfolding e using None by (auto simp: update_conv')
      show ?thesis
        unfolding rid using c mono None p(1)
        by (simp add: e t_def[symmetric] update_conv')
    next
      case (Some b)
      have e: "ensureEntry_resume e g p =
           (setUnresolvedUrlToModule
              (if map_of (urlToModuleMap g) u = None
               then g\<lparr>urlToModuleMap := AList.update u b (urlToModuleMap g)\<rparr> else g)
              (t_rawUrl t) (Node b) (t_ssr t))
           \<lparr>promises := (promises g)[p := t\<lparr>t_state := Fulfilled b\<rparr>]\<rparr>"
        using resume_found[where e=e and r=r and u=u and i=i and m=m and a=b, OF p(1)] p(2) tr Resolves f Some
        by (simp add: t_def)
      show ?thesis
        unfolding rid using Some p(1)
        by (simp add: e t_def[symmetric])
    qed
  qed
qed

lemma begin_hit:
  "getUnresolvedUrlToModule g (removeImportQuery e (removeTimestampQuery e rawUrl)) ssr = Some h \<Longrightarrow>
   ensureEntry_begin e g rawUrl ssr sia res = (h, g)"
  by (simp add: ensureEntry_begin_def Let_def)

lemma begin_miss:
  "getUnresolvedUrlToModule g (removeImportQuery e (removeTimestampQuery e rawUrl)) ssr = None \<Longrightarrow>
   ensureEntry_begin e g rawUrl ssr sia None =
     (Promise (length (promises g)),
      setUnresolvedUrlToModule
        (g\<lparr>resolveCalls := resolveCalls g @
              [(removeImportQuery e (removeTimestampQuery e rawUrl), ssr)],
           promises := promises g @
              [\<lparr>t_rawUrl = removeImportQuery e (removeTimestampQuery e rawUrl), t_ssr = ssr,
                t_setIsSelfAccepting = sia, t_resolved = None, t_state = Pending\<rparr>]\<rparr>)
        (removeImportQuery e (removeTimestampQuery e rawUrl)) (Promise (length (promises g))) ssr)"
  by (simp add: ensureEntry_begin_def Let_def)

lemma begin_ok:
  assumes ok: "registry_ok e g"
  shows "registry_ok e (snd (ensureEntry_begin e g rawUrl ssr sia None))"
proof (cases "getUnresolvedUrlToModule g (removeImportQuery e (removeTimestampQuery e rawUrl)) ssr")
  case (Some h)
  then show ?thesis using ok by (simp add: begin_hit)
next
  case None
  define u where "u = removeImportQuery e (removeTimestampQuery e rawUrl)"
  define t where "t = \<lparr>t_rawUrl = u, t_ssr = ssr,
                t_setIsSelfAccepting = sia, t_resolved = None, t_state = Pending\<rparr>"
  define g0 where "g0 = g\<lparr>resolveCalls := resolveCalls g @ [(u, ssr)], promises := promises g @ [t]\<rparr>"
  define g' where "g' = setUnresolvedUrlToModule g0 u (Promise (length (promises g))) ssr"
  have e: "snd (ensureEntry_begin e g rawUrl ssr sia None) = g'"
    using None by (simp add: begin_miss g'_def g0_def t_def u_def)
  have inv: "distinct (map fst (unresolvedUrlToModuleMap g))"
    "distinct (map fst (ssrUnresolvedUrlToModuleMap g))"
    "\<And>u ssr h. getUnresolvedUrlToModule g u ssr = Some h \<Longrightarrow> handle_ok e g u ssr h"
    "\<And>q. q < length (promises g) \<Longrightarrow> task_ok g q (promises g ! q)"
    using ok unfolding registry_ok_lookup by auto
  have g': "resolveId g' = resolveId g" "idToModuleMap g' = idToModuleMap g"
    "promises g' = promises g @ [t]"
    by (simp_all add: g'_def g0_def)
  show ?thesis
    unfolding e registry_ok_lookup
  proof (intro conjI allI impI ballI)
    show "distinct (map fst (unresolvedUrlToModuleMap g'))"
      using inv(1) set_unresolved_fields(8)[of g0] by (simp add: g'_def g0_def)
    show "distinct (map fst (ssrUnresolvedUrlToModuleMap g'))"
      using inv(2) set_unresolved_fields(9)[of g0] by (simp add: g'_def g0_def)
  next
    fix u' ssr' h
    assume l: "getUnresolvedUrlToModule g' u' ssr' = Some h"
    show "handle_ok e g' u' ssr' h"
    proof (cases "u' = u \<and> ssr' = ssr")
      case True
      with l have "h = Promise (length (promises g))" by (simp add: g'_def)
      then show ?thesis
        using True by (simp add: handle_ok_def g'(3) t_def)
    next
      case False
      with l have "getUnresolvedUrlToModule g u' ssr' = Some h" by (auto simp: g'_def g0_def)
      then have "handle_ok e g u' ssr' h" by (rule inv(3))
      then show ?thesis
        by (rule handle_ok_carry) (auto simp: g' nth_append)
    qed
  next
    fix q assume q: "q < length (promises g')"
    show "task_ok g' q (promises g' ! q)"
    proof (cases "q = length (promises g)")
      case True
      then show ?thesis
        by (simp add: task_ok_def g'(3) t_def) (simp add: g'_def)
    next
      case False
      with q have q': "q < length (promises g)" by (simp add: g'(3))
      have "\<not> (t_rawUrl (promises g ! q) = u \<and> t_ssr (promises g ! q) = ssr)"
      proof
        assume k: "t_rawUrl (promises g ! q) = u \<and> t_ssr (promises g ! q) = ssr"
        from inv(4)[OF q'] have "getUnresolvedUrlToModule g u ssr \<noteq> None"
          unfolding task_ok_def using k by auto
        with None show False by (simp add: u_def)
      qed
      with inv(4)[OF q'] q' show ?thesis
        by (auto simp: task_ok_def g'(3) nth_append g'_def g0_def)
    qed
  qed
qed

text \<open>What awaiting the promise of a task for \<open>u\<close> yields when it yields a node.\<close>

lemma await_promise_outcome:
  assumes ok: "registry_ok e g"
    and q: "q < length (promises g)" "t_rawUrl (promises g ! q) = u" "t_ssr (promises g ! q) = ssr"
      "\<forall>a. t_state (promises g ! q) \<noteq> Fulfilled a"
    and r: "await_handle e g (Promise q) = (Inr a, g')"
  shows "registry_ok e g' \<and> resolveId g' = resolveId g \<and>
         (\<forall>k b. map_of (idToModuleMap g) k = Some b \<longrightarrow> map_of (idToModuleMap g') k = Some b) \<and>
         getUnresolvedUrlToModule g' u ssr = Some (Node a) \<and>
         (case resolved_id e g u ssr of
            None \<Rightarrow> False
          | Some i \<Rightarrow> map_of (idToModuleMap g') i = Some a \<and>
              (case map_of (idToModuleMap g) i of
                 Some b \<Rightarrow> nodes g' = nodes g
               | None \<Rightarrow> created_at e g g' i a))"
proof -
  have g': "g' = ensureEntry_resume e g q"
    using r by (auto simp: await_handle_def Let_def split: if_splits promise_state.splits)
  have st: "t_state (promises g' ! q) = Fulfilled a"
    using r by (auto simp: await_handle_def Let_def g' split: if_splits promise_state.splits)
  have pend: "t_state (promises g ! q) = Pending"
  proof (rule ccontr)
    assume n: "t_state (promises g ! q) \<noteq> Pending"
    then have "ensureEntry_resume e g q = g" by (simp add: resume_idle)
    with st g' q(4) show False by simp
  qed
  note o = resume_outcome[OF ok q(1) pend, of]
  show ?thesis
    using o st resume_ok[OF ok, of q] unfolding g'[symmetric] q(2,3)
    by (auto split: option.splits)
qed

lemma ensure_outcome:
  assumes ok: "registry_ok e g"
    and r: "ensureEntryFromUrl e g rawUrl ssr sia = (Inr a, g')"
  shows "registry_ok e g' \<and> resolveId g' = resolveId g \<and>
         (\<forall>k b. map_of (idToModuleMap g) k = Some b \<longrightarrow> map_of (idToModuleMap g') k = Some b) \<and>
         getUnresolvedUrlToModule g' (removeImportQuery e (removeTimestampQuery e rawUrl)) ssr
           = Some (Node a) \<and>
         (case resolved_id e g (removeImportQuery e (removeTimestampQuery e rawUrl)) ssr of
            None \<Rightarrow> False
          | Some i \<Rightarrow> map_of (idToModuleMap g') i = Some a \<and>
              (case map_of (idToModuleMap g) i of
                 Some b \<Rightarrow> nodes g' = nodes g
               | None \<Rightarrow> created_at e g g' i a))"
proof -
  define u where "u = removeImportQuery e (removeTimestampQuery e rawUrl)"
  have inv: "\<And>u ssr h. getUnresolvedUrlToModule g u ssr = Some h \<Longrightarrow> handle_ok e g u ssr h"
    using ok unfolding registry_ok_lookup by auto
  show ?thesis
  proof (cases "getUnresolvedUrlToModule g u ssr")
    case None
    define g0 where "g0 = snd (ensureEntry_begin e g rawUrl ssr sia None)"
    have b: "ensureEntry_begin e g rawUrl ssr sia None = (Promise (length (promises g)), g0)"
      using None by (simp add: begin_miss g0_def u_def)
    have ok0: "registry_ok e g0" unfolding g0_def by (rule begin_ok[OF ok])
    have g0: "resolveId g0 = resolveId g" "idToModuleMap g0 = idToModuleMap g" "nodes g0 = nodes g"
      "length (promises g) < length (promises g0)"
      "t_rawUrl (promises g0 ! length (promises g)) = u"
      "t_ssr (promises g0 ! length (promises g)) = ssr"
      "\<forall>a. t_state (promises g0 ! length (promises g)) \<noteq> Fulfilled a"
      using None by (simp_all add: g0_def begin_miss u_def)
    have aw: "await_handle e g0 (Promise (length (promises g))) = (Inr a, g')"
      using r b by (simp add: ensureEntryFromUrl_def internal_ensureEntryFromUrl_def)
    have rid: "resolved_id e g0 u ssr = resolved_id e g u ssr"
      by (simp add: resolved_id_def g0(1))
    have cr: "\<And>i. created_at e g0 g' i a = created_at e g g' i a"
      by (simp add: created_at_def g0)
    show ?thesis
      using await_promise_outcome[OF ok0 g0(4-7) aw]
      unfolding u_def[symmetric] rid g0(1,2,3) cr by simp
  next
    case (Some h)
    have b: "ensureEntry_begin e g rawUrl ssr sia None = (h, g)"
      using Some by (simp add: begin_hit u_def)
    have aw: "await_handle e g h = (Inr a, g')"
      using r b by (simp add: ensureEntryFromUrl_def internal_ensureEntryFromUrl_def)
    have hok: "handle_ok e g u ssr h" using inv Some by simp
    show ?thesis
    proof (cases h)
      case (Node b)
      with aw have "a = b" "g' = g" by (simp_all add: await_handle_def)
      then show ?thesis
        using ok hok Some Node unfolding u_def[symmetric]
        by (auto simp: handle_ok_def split: option.splits)
    next
      case (Promise q)
      with hok have q: "q < length (promises g)" "t_rawUrl (promises g ! q) = u"
        "t_ssr (promises g ! q) = ssr" "\<forall>a. t_state (promises g ! q) \<noteq> Fulfilled a"
        by (auto simp: handle_ok_def split: promise_state.splits)
      show ?thesis
        using await_promise_outcome[OF ok q] aw Promise unfolding u_def[symmetric] by simp
    qed
  qed
qed

lemma resume_settled:
  assumes "q < length (promises g)" "t_state (promises g ! q) = Pending"
    and "(case t_resolved (promises g ! q) of
            Some r \<Rightarrow> Resolves (Some r)
          | None \<Rightarrow> resolveId g (t_rawUrl (promises g ! q)) (t_ssr (promises g ! q))) = R"
  shows "ensureEntry_resume e g q =
     (case R of
        Rejects \<Rightarrow> g\<lparr>promises := (promises g)[q := (promises g ! q)\<lparr>t_state := Rejected\<rparr>]\<rparr>
      | Resolves r \<Rightarrow>
          (case resolveUrl_finish e (t_rawUrl (promises g ! q)) r of
             (u, resolvedId, meta') \<Rightarrow>
               (case (case map_of (idToModuleMap g) resolvedId of
                        None \<Rightarrow> register_new_node e g u resolvedId meta'
                                  (t_setIsSelfAccepting (promises g ! q))
                      | Some m \<Rightarrow>
                          (m, if map_of (urlToModuleMap g) u = None
                              then g\<lparr>urlToModuleMap := AList.update u m (urlToModuleMap g)\<rparr>
                              else g)) of
                  (modu, g1) \<Rightarrow>
                    (setUnresolvedUrlToModule g1 (t_rawUrl (promises g ! q)) (Node modu)
                       (t_ssr (promises g ! q)))
                    \<lparr>promises := (promises g)[q := (promises g ! q)\<lparr>t_state := Fulfilled modu\<rparr>]\<rparr>)))"
proof -
  have p: "\<And>g1 u h s. promises (setUnresolvedUrlToModule g1 u h s) = promises g1"
    by (simp add: setUnresolvedUrlToModule_def)
  have r: "\<And>u i m sia. promises (snd (register_new_node e g u i m sia)) = promises g"
    by (simp add: register_new_node_def Let_def)
  show ?thesis
    using assms(1,2) unfolding assms(3)[symmetric]
    by (auto simp: ensureEntry_resume_def Let_def p register_new_node_def
             split: resolution.splits prod.splits option.splits)
qed

lemma resume_frame:
  "length (promises (ensureEntry_resume e g q)) = length (promises g) \<and>
   resolveCalls (ensureEntry_resume e g q) = resolveCalls g \<and>
   (\<forall>p < length (promises g).
      t_rawUrl (promises (ensureEntry_resume e g q) ! p) = t_rawUrl (promises g ! p) \<and>
      t_ssr (promises (ensureEntry_resume e g q) ! p) = t_ssr (promises g ! p) \<and>
      (t_state (promises g ! p) \<noteq> Pending \<longrightarrow>
         promises (ensureEntry_resume e g q) ! p = promises g ! p))"
proof (cases "length (promises g) \<le> q \<or> t_state (promises g ! q) \<noteq> Pending")
  case True
  then show ?thesis by (simp add: resume_idle)
next
  case False
  then have q: "q < length (promises g)" "t_state (promises g ! q) = Pending" by auto
  define R where "R = (case t_resolved (promises g ! q) of
            Some r \<Rightarrow> Resolves (Some r)
          | None \<Rightarrow> resolveId g (t_rawUrl (promises g ! q)) (t_ssr (promises g ! q)))"
  note u = resume_settled[OF q R_def[symmetric], of e]
  have "\<exists>x. promises (ensureEntry_resume e g q) = (promises g)[q := (promises g ! q)\<lparr>t_state := x\<rparr>] \<and>
      resolveCalls (ensureEntry_resume e g q) = resolveCalls g"
    unfolding u
    by (auto simp: register_new_node_def Let_def setUnresolvedUrlToModule_def
             split: resolution.splits prod.splits option.splits)
  then obtain x where x: "promises (ensureEntry_resume e g q) = (promises g)[q := (promises g ! q)\<lparr>t_state := x\<rparr>]"
    "resolveCalls (ensureEntry_resume e g q) = resolveCalls g"
    by blast
  show ?thesis
    unfolding x using q by (auto simp: nth_list_update)
qed

lemma begin_frame:
  "(promises (snd (ensureEntry_begin e g rawUrl ssr sia None)) = promises g \<and>
    resolveCalls (snd (ensureEntry_begin e g rawUrl ssr sia None)) = resolveCalls g \<and>
    getUnresolvedUrlToModule g (removeImportQuery e (removeTimestampQuery e rawUrl)) ssr
      = Some (fst (ensureEntry_begin e g rawUrl ssr sia None))) \<or>
   (getUnresolvedUrlToModule g (removeImportQuery e (removeTimestampQuery e rawUrl)) ssr = None \<and>
    (\<exists>t. promises (snd (ensureEntry_begin e g rawUrl ssr sia None)) = promises g @ [t]) \<and>
    resolveCalls (snd (ensureEntry_begin e g rawUrl ssr sia None))
      = resolveCalls g @ [(removeImportQuery e (removeTimestampQuery e rawUrl), ssr)])"
  by (cases "getUnresolvedUrlToModule g (removeImportQuery e (removeTimestampQuery e rawUrl)) ssr")
     (simp_all add: begin_miss begin_hit)

lemma run_after_publication:
  assumes "registry_ok e g" "p < length (promises g)"
    "t_rawUrl (promises g ! p) = u" "t_ssr (promises g ! p) = ssr"
  shows "case run e g evs of (rs, g') \<Rightarrow>
     count_list (resolveCalls g') (u, ssr) = count_list (resolveCalls g) (u, ssr) \<and>
     p < length (promises g') \<and>
     (\<forall>a. t_state (promises g ! p) = Fulfilled a \<longrightarrow> t_state (promises g' ! p) = Fulfilled a) \<and>
     (\<forall>(r, s, h) \<in> set rs. removeImportQuery e (removeTimestampQuery e r) = u \<and> s = ssr \<longrightarrow>
        h = Promise p \<or> (\<exists>a. h = Node a \<and> t_state (promises g' ! p) = Fulfilled a))"
  using assms
proof (induction evs arbitrary: g)
  case Nil
  then show ?case by simp
next
  case (Cons ev evs)
  have tk: "task_ok g p (promises g ! p)"
    using Cons.prems(1,2) unfolding registry_ok_lookup by auto
  have hit: "getUnresolvedUrlToModule g u ssr =
      Some (case t_state (promises g ! p) of Fulfilled a \<Rightarrow> Node a | _ \<Rightarrow> Promise p)"
    using tk Cons.prems(3,4) by (simp add: task_ok_def)
  show ?case
  proof (cases ev)
    case (Settle q)
    define g1 where "g1 = ensureEntry_resume e g q"
    have f: "length (promises g1) = length (promises g)" "resolveCalls g1 = resolveCalls g"
      "t_rawUrl (promises g1 ! p) = u" "t_ssr (promises g1 ! p) = ssr"
      "t_state (promises g ! p) \<noteq> Pending \<longrightarrow> promises g1 ! p = promises g ! p"
      using resume_frame[of e g q] Cons.prems(2,3,4) unfolding g1_def by auto
    have ok1: "registry_ok e g1" unfolding g1_def by (rule resume_ok[OF Cons.prems(1)])
    have p1: "p < length (promises g1)" using f(1) Cons.prems(2) by simp
    note ih = Cons.IH[OF ok1 p1 f(3,4)]
    show ?thesis
      using ih f(2,5) unfolding Settle by (auto simp: g1_def[symmetric] split: prod.splits)
  next
    case (Call r s sia)
    obtain h g1 where b: "ensureEntry_begin e g r s sia None = (h, g1)"
      by (cases "ensureEntry_begin e g r s sia None") auto
    have ok1: "registry_ok e g1" using begin_ok[OF Cons.prems(1), of r s sia] b by simp
    have pf: "p < length (promises g1)" "promises g1 ! p = promises g ! p"
      using begin_frame[of e g r s sia] b Cons.prems(2) by (auto simp: nth_append)
    have ne: "(removeImportQuery e (removeTimestampQuery e r), s) = (u, ssr) \<Longrightarrow>
        getUnresolvedUrlToModule g (removeImportQuery e (removeTimestampQuery e r)) s
          = Some (case t_state (promises g ! p) of Fulfilled a \<Rightarrow> Node a | _ \<Rightarrow> Promise p)"
      using hit by auto
    have cnt: "count_list (resolveCalls g1) (u, ssr) = count_list (resolveCalls g) (u, ssr)"
    proof (cases "(removeImportQuery e (removeTimestampQuery e r), s) = (u, ssr)")
      case True
      from ne[OF True] show ?thesis using begin_frame[of e g r s sia] b by auto
    next
      case False
      then show ?thesis using begin_frame[of e g r s sia] b by auto
    qed
    have hh: "removeImportQuery e (removeTimestampQuery e r) = u \<and> s = ssr \<longrightarrow>
        h = (case t_state (promises g ! p) of Fulfilled a \<Rightarrow> Node a | _ \<Rightarrow> Promise p)"
    proof
      assume k: "removeImportQuery e (removeTimestampQuery e r) = u \<and> s = ssr"
      then have "(removeImportQuery e (removeTimestampQuery e r), s) = (u, ssr)" by simp
      from ne[OF this] show "h = (case t_state (promises g ! p) of Fulfilled a \<Rightarrow> Node a | _ \<Rightarrow> Promise p)"
        using begin_frame[of e g r s sia] b by auto
    qed
    note ih = Cons.IH[OF ok1 pf(1), unfolded pf(2), OF Cons.prems(3,4)]
    show ?thesis
      using ih cnt hh unfolding Call
      by (auto simp: b split: prod.splits promise_state.splits)
  qed
qed














subsection \<open>A resolved url always gets its node\<close>

lemma settled_ok_lookup:
  assumes "registry_ok e g"
  shows "settled_ok e g \<longleftrightarrow>
     (\<forall>u ssr h. getUnresolvedUrlToModule g u ssr = Some h \<longrightarrow> served_ok e g u ssr h) \<and>
     (\<forall>p < length (promises g). t_state (promises g ! p) = Rejected \<longrightarrow>
        resolveId g (t_rawUrl (promises g ! p)) (t_ssr (promises g ! p)) = Rejects)"
proof -
  have dd: "distinct (map fst (unresolvedUrlToModuleMap g))"
    "distinct (map fst (ssrUnresolvedUrlToModuleMap g))"
    using assms by (simp_all add: registry_ok_def)
  have d: "list_all (\<lambda>t. t_state t \<noteq> Rejected \<or> resolveId g (t_rawUrl t) (t_ssr t) = Rejects)
       (promises g) \<longleftrightarrow>
     (\<forall>p < length (promises g). t_state (promises g ! p) = Rejected \<longrightarrow>
        resolveId g (t_rawUrl (promises g ! p)) (t_ssr (promises g ! p)) = Rejects)"
    by (auto simp: list_all_length)
  have a: "list_all (\<lambda>(u, h). served_ok e g u False h) (unresolvedUrlToModuleMap g) \<longleftrightarrow>
      (\<forall>u h. getUnresolvedUrlToModule g u False = Some h \<longrightarrow> served_ok e g u False h)"
    using dd(1) by (auto simp: getUnresolvedUrlToModule_def list_all_iff)
  have b: "list_all (\<lambda>(u, h). served_ok e g u True h) (ssrUnresolvedUrlToModuleMap g) \<longleftrightarrow>
      (\<forall>u h. getUnresolvedUrlToModule g u True = Some h \<longrightarrow> served_ok e g u True h)"
    using dd(2) by (auto simp: getUnresolvedUrlToModule_def list_all_iff)
  have c: "(\<forall>u ssr h. getUnresolvedUrlToModule g u ssr = Some h \<longrightarrow> served_ok e g u ssr h) \<longleftrightarrow>
      (\<forall>u h. getUnresolvedUrlToModule g u False = Some h \<longrightarrow> served_ok e g u False h) \<and>
      (\<forall>u h. getUnresolvedUrlToModule g u True = Some h \<longrightarrow> served_ok e g u True h)"
    by (metis (full_types))
  show ?thesis unfolding settled_ok_def a b c d by auto
qed

lemma served_ok_carry:
  assumes "served_ok e g u ssr h" "resolveId g' = resolveId g"
    "\<And>k. map_of (urlToModuleMap g) k \<noteq> None \<Longrightarrow> map_of (urlToModuleMap g') k \<noteq> None"
  shows "served_ok e g' u ssr h"
  using assms unfolding served_ok_def by (auto split: handle.splits resolution.splits)

lemma begin_settled:
  assumes ok: "registry_ok e g" and st: "settled_ok e g"
  shows "settled_ok e (snd (ensureEntry_begin e g rawUrl ssr sia None))"
proof (cases "getUnresolvedUrlToModule g (removeImportQuery e (removeTimestampQuery e rawUrl)) ssr")
  case (Some h)
  then show ?thesis using st by (simp add: begin_hit)
next
  case None
  define u where "u = removeImportQuery e (removeTimestampQuery e rawUrl)"
  define t where "t = \<lparr>t_rawUrl = u, t_ssr = ssr,
                t_setIsSelfAccepting = sia, t_resolved = None, t_state = Pending\<rparr>"
  define g0 where "g0 = g\<lparr>resolveCalls := resolveCalls g @ [(u, ssr)], promises := promises g @ [t]\<rparr>"
  define g' where "g' = setUnresolvedUrlToModule g0 u (Promise (length (promises g))) ssr"
  have e: "snd (ensureEntry_begin e g rawUrl ssr sia None) = g'"
    using None by (simp add: begin_miss g'_def g0_def t_def u_def)
  have ok': "registry_ok e g'" using begin_ok[OF ok, of rawUrl ssr sia] unfolding e .
  have inv: "\<And>u ssr h. getUnresolvedUrlToModule g u ssr = Some h \<Longrightarrow> served_ok e g u ssr h"
    "\<And>p. p < length (promises g) \<Longrightarrow> t_state (promises g ! p) = Rejected \<Longrightarrow>
        resolveId g (t_rawUrl (promises g ! p)) (t_ssr (promises g ! p)) = Rejects"
    using st unfolding settled_ok_lookup[OF ok] by auto
  have g': "resolveId g' = resolveId g" "urlToModuleMap g' = urlToModuleMap g"
    "promises g' = promises g @ [t]"
    by (simp_all add: g'_def g0_def)
  show ?thesis
    unfolding e settled_ok_lookup[OF ok']
  proof (intro conjI allI impI)
    fix u' ssr' h
    assume l: "getUnresolvedUrlToModule g' u' ssr' = Some h"
    show "served_ok e g' u' ssr' h"
    proof (cases "u' = u \<and> ssr' = ssr")
      case True
      with l have "h = Promise (length (promises g))" by (simp add: g'_def)
      then show ?thesis by (simp add: served_ok_def)
    next
      case False
      with l have "getUnresolvedUrlToModule g u' ssr' = Some h" by (auto simp: g'_def g0_def)
      then have "served_ok e g u' ssr' h" by (rule inv(1))
      then show ?thesis by (rule served_ok_carry) (simp_all add: g')
    qed
  next
    fix p assume p: "p < length (promises g')" "t_state (promises g' ! p) = Rejected"
    then have "p < length (promises g)"
      by (cases "p = length (promises g)") (auto simp: g'(3) t_def)
    with p(2) inv(2)[of p] show "resolveId g' (t_rawUrl (promises g' ! p)) (t_ssr (promises g' ! p)) = Rejects"
      by (simp add: g' nth_append)
  qed
qed

lemma resume_settled_ok:
  assumes ok: "registry_ok e g" and st: "settled_ok e g"
  shows "settled_ok e (ensureEntry_resume e g p)"
proof (cases "length (promises g) \<le> p \<or> t_state (promises g ! p) \<noteq> Pending")
  case True
  then show ?thesis using st by (simp add: resume_idle)
next
  case False
  define t where "t = promises g ! p"
  have p: "p < length (promises g)" "t_state t = Pending" using False by (auto simp: t_def)
  have ok': "registry_ok e (ensureEntry_resume e g p)" by (rule resume_ok[OF ok])
  have inv: "\<And>u ssr h. getUnresolvedUrlToModule g u ssr = Some h \<Longrightarrow> served_ok e g u ssr h"
    "\<And>p. p < length (promises g) \<Longrightarrow> t_state (promises g ! p) = Rejected \<Longrightarrow>
        resolveId g (t_rawUrl (promises g ! p)) (t_ssr (promises g ! p)) = Rejects"
    using st unfolding settled_ok_lookup[OF ok] by auto
  have tr: "t_resolved t = None"
    using ok p(1) unfolding registry_ok_lookup t_def task_ok_def by auto
  show ?thesis
  proof (cases "resolveId g (t_rawUrl t) (t_ssr t)")
    case Rejects
    have e: "ensureEntry_resume e g p = g\<lparr>promises := (promises g)[p := t\<lparr>t_state := Rejected\<rparr>]\<rparr>"
      using resume_rejects[OF p(1)] p(2) tr Rejects by (simp add: t_def)
    show ?thesis
      unfolding settled_ok_lookup[OF ok'] unfolding e
    proof (intro conjI allI impI)
      fix u ssr h
      assume "getUnresolvedUrlToModule (g\<lparr>promises := (promises g)[p := t\<lparr>t_state := Rejected\<rparr>]\<rparr>) u ssr = Some h"
      then have "served_ok e g u ssr h" using inv(1) by simp
      then show "served_ok e (g\<lparr>promises := (promises g)[p := t\<lparr>t_state := Rejected\<rparr>]\<rparr>) u ssr h"
        by (rule served_ok_carry) simp_all
    next
      fix q
      assume q: "q < length (promises (g\<lparr>promises := (promises g)[p := t\<lparr>t_state := Rejected\<rparr>]\<rparr>))"
        "t_state (promises (g\<lparr>promises := (promises g)[p := t\<lparr>t_state := Rejected\<rparr>]\<rparr>) ! q) = Rejected"
      show "resolveId (g\<lparr>promises := (promises g)[p := t\<lparr>t_state := Rejected\<rparr>]\<rparr>)
              (t_rawUrl (promises (g\<lparr>promises := (promises g)[p := t\<lparr>t_state := Rejected\<rparr>]\<rparr>) ! q))
              (t_ssr (promises (g\<lparr>promises := (promises g)[p := t\<lparr>t_state := Rejected\<rparr>]\<rparr>) ! q)) = Rejects"
      proof (cases "q = p")
        case True
        then show ?thesis using p(1) Rejects by simp
      next
        case False
        with q inv(2)[of q] show ?thesis by simp
      qed
    qed
  next
    case (Resolves r)
    obtain u i m where f: "resolveUrl_finish e (t_rawUrl t) r = (u, i, m)"
      by (cases "resolveUrl_finish e (t_rawUrl t) r") auto
    define a where "a = (case map_of (idToModuleMap g) i of None \<Rightarrow> length (nodes g) | Some b \<Rightarrow> b)"
    define g1 where "g1 = (case map_of (idToModuleMap g) i of
        None \<Rightarrow> snd (register_new_node e g u i m (t_setIsSelfAccepting t))
      | Some b \<Rightarrow> (if map_of (urlToModuleMap g) u = None
               then g\<lparr>urlToModuleMap := AList.update u b (urlToModuleMap g)\<rparr> else g))"
    have e: "ensureEntry_resume e g p =
        (setUnresolvedUrlToModule g1 (t_rawUrl t) (Node a) (t_ssr t))
           \<lparr>promises := (promises g)[p := t\<lparr>t_state := Fulfilled a\<rparr>]\<rparr>"
    proof (cases "map_of (idToModuleMap g) i")
      case None
      then show ?thesis
        using resume_created[where e=e and r=r and u=u and i=i and m=m, OF p(1)] p(2) tr Resolves f
        by (simp add: t_def a_def g1_def)
    next
      case (Some b)
      then show ?thesis
        using resume_found[where e=e and r=r and u=u and i=i and m=m and a=b, OF p(1)] p(2) tr Resolves f
        by (simp add: t_def a_def g1_def)
    qed
    have g1: "resolveId g1 = resolveId g"
      "getUnresolvedUrlToModule g1 = getUnresolvedUrlToModule g"
      "map_of (urlToModuleMap g1) u \<noteq> None"
      "\<And>k. map_of (urlToModuleMap g) k \<noteq> None \<Longrightarrow> map_of (urlToModuleMap g1) k \<noteq> None"
      by (auto simp: g1_def update_conv' getUnresolvedUrlToModule_def fun_eq_iff
               split: option.splits)
    define g' where "g' = (setUnresolvedUrlToModule g1 (t_rawUrl t) (Node a) (t_ssr t))
           \<lparr>promises := (promises g)[p := t\<lparr>t_state := Fulfilled a\<rparr>]\<rparr>"
    have g': "resolveId g' = resolveId g" "urlToModuleMap g' = urlToModuleMap g1"
      "promises g' = (promises g)[p := t\<lparr>t_state := Fulfilled a\<rparr>]"
      by (simp_all add: g'_def g1)
    show ?thesis
      unfolding settled_ok_lookup[OF ok'] unfolding e g'_def[symmetric]
    proof (intro conjI allI impI)
      fix u' ssr' h
      assume l: "getUnresolvedUrlToModule g' u' ssr' = Some h"
      show "served_ok e g' u' ssr' h"
      proof (cases "u' = t_rawUrl t \<and> ssr' = t_ssr t")
        case True
        with l have "h = Node a" by (simp add: g'_def)
        then show ?thesis
          using True Resolves f g1(3) g'(1,2) by (simp add: served_ok_def)
      next
        case False
        with l have "getUnresolvedUrlToModule g u' ssr' = Some h" by (auto simp: g'_def g1(2))
        then have "served_ok e g u' ssr' h" by (rule inv(1))
        then show ?thesis
          by (rule served_ok_carry) (use g1(4) g' in auto)
      qed
    next
      fix q assume q: "q < length (promises g')" "t_state (promises g' ! q) = Rejected"
      show "resolveId g' (t_rawUrl (promises g' ! q)) (t_ssr (promises g' ! q)) = Rejects"
      proof (cases "q = p")
        case True
        then show ?thesis using q p(1) by (simp add: g'(3))
      next
        case False
        with q inv(2)[of q] show ?thesis by (simp add: g')
      qed
    qed
  qed
qed

lemma await_pending:
  assumes ok: "registry_ok e g" and st: "settled_ok e g"
    and q: "q < length (promises g)" "t_state (promises g ! q) = Pending"
      "t_rawUrl (promises g ! q) = u" "t_ssr (promises g ! q) = ssr"
    and rs: "resolveId g u ssr = Resolves r" and f: "resolveUrl_finish e u r = (srv, i, m)"
  shows "\<exists>a g'. await_handle e g (Promise q) = (Inr a, g') \<and>
      registry_ok e g' \<and> settled_ok e g' \<and> resolveId g' = resolveId g \<and>
      map_of (idToModuleMap g') i = Some a \<and>
      getUnresolvedUrlToModule g' u ssr = Some (Node a) \<and>
      (case map_of (idToModuleMap g) i of
         Some b \<Rightarrow> a = b \<and> nodes g' = nodes g \<and> idToModuleMap g' = idToModuleMap g \<and>
                  fileToModulesMap g' = fileToModulesMap g \<and>
                  urlToModuleMap g' =
                    (case map_of (urlToModuleMap g) srv of
                       None \<Rightarrow> AList.update srv b (urlToModuleMap g)
                     | Some c \<Rightarrow> urlToModuleMap g)
       | None \<Rightarrow> created_at e g g' i a)"
proof -
  define g' where "g' = ensureEntry_resume e g q"
  have tr: "t_resolved (promises g ! q) = None"
    using ok q(1) unfolding registry_ok_lookup task_ok_def by auto
  have rid: "resolved_id e g (t_rawUrl (promises g ! q)) (t_ssr (promises g ! q)) = Some i"
    using rs f q(3,4) by (simp add: resolved_id_def)
  note o = resume_outcome[OF ok q(1,2), of, unfolded rid option.case, folded g'_def]
  then obtain a where a: "t_state (promises g' ! q) = Fulfilled a"
    "map_of (idToModuleMap g') i = Some a"
    "getUnresolvedUrlToModule g' u ssr = Some (Node a)"
    "case map_of (idToModuleMap g) i of
       Some b \<Rightarrow> nodes g' = nodes g | None \<Rightarrow> created_at e g g' i a"
    and l: "length (promises g') = length (promises g)" and rr: "resolveId g' = resolveId g"
    unfolding q(3,4) by auto
  have aw: "await_handle e g (Promise q) = (Inr a, g')"
    using a(1) l q(1) by (simp add: await_handle_def Let_def g'_def[symmetric])
  have ok': "registry_ok e g'" unfolding g'_def by (rule resume_ok[OF ok])
  have st': "settled_ok e g'" unfolding g'_def by (rule resume_settled_ok[OF ok st])
  have c: "case map_of (idToModuleMap g) i of
         Some b \<Rightarrow> a = b \<and> nodes g' = nodes g \<and> idToModuleMap g' = idToModuleMap g \<and>
                  fileToModulesMap g' = fileToModulesMap g \<and>
                  urlToModuleMap g' =
                    (case map_of (urlToModuleMap g) srv of
                       None \<Rightarrow> AList.update srv b (urlToModuleMap g)
                     | Some c \<Rightarrow> urlToModuleMap g)
       | None \<Rightarrow> created_at e g g' i a"
  proof (cases "map_of (idToModuleMap g) i")
    case None
    with a(4) show ?thesis by simp
  next
    case (Some b)
    have e: "g' =
           (setUnresolvedUrlToModule
              (if map_of (urlToModuleMap g) srv = None
               then g\<lparr>urlToModuleMap := AList.update srv b (urlToModuleMap g)\<rparr> else g)
              (t_rawUrl (promises g ! q)) (Node b) (t_ssr (promises g ! q)))
           \<lparr>promises := (promises g)[q := (promises g ! q)\<lparr>t_state := Fulfilled b\<rparr>]\<rparr>"
      unfolding g'_def
      using resume_found[where e=e and r=r and u=srv and i=i and m=m and a=b, OF q(1,2) tr] rs f Some q(3,4)
      by simp
    have "a = b" using a(1) q(1) unfolding e by simp
    moreover have "nodes g' = nodes g" "idToModuleMap g' = idToModuleMap g"
      "fileToModulesMap g' = fileToModulesMap g"
      "urlToModuleMap g' =
                    (case map_of (urlToModuleMap g) srv of
                       None \<Rightarrow> AList.update srv b (urlToModuleMap g)
                     | Some c \<Rightarrow> urlToModuleMap g)"
      unfolding e by (auto split: option.splits)
    ultimately show ?thesis using Some by simp
  qed
  from aw ok' st' rr a(2,3) c show ?thesis by blast
qed

lemma ensure_total:
  fixes e :: env and rawUrl :: string
  defines "u \<equiv> removeImportQuery e (removeTimestampQuery e rawUrl)"
  assumes ok: "registry_ok e g" and st: "settled_ok e g"
    and rs: "resolveId g u ssr = Resolves r" and f: "resolveUrl_finish e u r = (srv, i, m)"
  shows "\<exists>a g'. ensureEntryFromUrl e g rawUrl ssr sia = (Inr a, g') \<and>
      registry_ok e g' \<and> settled_ok e g' \<and> resolveId g' = resolveId g \<and>
      map_of (idToModuleMap g') i = Some a \<and>
      getUnresolvedUrlToModule g' u ssr = Some (Node a) \<and>
      (case map_of (idToModuleMap g) i of
         Some b \<Rightarrow> a = b \<and> nodes g' = nodes g \<and> idToModuleMap g' = idToModuleMap g \<and>
                  fileToModulesMap g' = fileToModulesMap g \<and>
                  urlToModuleMap g' =
                    (case map_of (urlToModuleMap g) srv of
                       None \<Rightarrow> AList.update srv b (urlToModuleMap g)
                     | Some c \<Rightarrow> urlToModuleMap g)
       | None \<Rightarrow> created_at e g g' i a)"
proof (cases "getUnresolvedUrlToModule g u ssr")
  case None
  define g0 where "g0 = snd (ensureEntry_begin e g rawUrl ssr sia None)"
  have b: "ensureEntry_begin e g rawUrl ssr sia None = (Promise (length (promises g)), g0)"
    using None by (simp add: begin_miss g0_def u_def)
  have ok0: "registry_ok e g0" unfolding g0_def by (rule begin_ok[OF ok])
  have st0: "settled_ok e g0" unfolding g0_def by (rule begin_settled[OF ok st])
  have g0: "resolveId g0 = resolveId g" "idToModuleMap g0 = idToModuleMap g" "nodes g0 = nodes g"
    "urlToModuleMap g0 = urlToModuleMap g" "fileToModulesMap g0 = fileToModulesMap g"
    "length (promises g) < length (promises g0)"
    "t_state (promises g0 ! length (promises g)) = Pending"
    "t_rawUrl (promises g0 ! length (promises g)) = u"
    "t_ssr (promises g0 ! length (promises g)) = ssr"
    using None by (simp_all add: g0_def begin_miss u_def)
  have rs0: "resolveId g0 u ssr = Resolves r" using rs g0(1) by simp
  have cr: "\<And>g' a. created_at e g0 g' i a = created_at e g g' i a"
    by (simp add: created_at_def g0)
  have en: "ensureEntryFromUrl e g rawUrl ssr sia = await_handle e g0 (Promise (length (promises g)))"
    using b by (simp add: ensureEntryFromUrl_def internal_ensureEntryFromUrl_def)
  show ?thesis
    using await_pending[OF ok0 st0 g0(6-9) rs0 f]
    unfolding en g0(1-5) cr by simp
next
  case (Some h)
  have b: "ensureEntry_begin e g rawUrl ssr sia None = (h, g)"
    using Some by (simp add: begin_hit u_def)
  have en: "ensureEntryFromUrl e g rawUrl ssr sia = await_handle e g h"
    using b by (simp add: ensureEntryFromUrl_def internal_ensureEntryFromUrl_def)
  have hok: "handle_ok e g u ssr h" using ok Some unfolding registry_ok_lookup by auto
  have sok: "served_ok e g u ssr h" using st Some unfolding settled_ok_lookup[OF ok] by auto
  have rid: "resolved_id e g u ssr = Some i" using rs f by (simp add: resolved_id_def)
  show ?thesis
  proof (cases h)
    case (Node b)
    have ib: "map_of (idToModuleMap g) i = Some b"
      using hok Node rid by (simp add: handle_ok_def)
    have "map_of (urlToModuleMap g) srv \<noteq> None"
      using sok Node rs f by (simp add: served_ok_def)
    then obtain c where c: "map_of (urlToModuleMap g) srv = Some c" by auto
    have "await_handle e g h = (Inr b, g)" using Node by (simp add: await_handle_def)
    then show ?thesis
      unfolding en using ok st ib c Some Node by simp
  next
    case (Promise q)
    with hok have q: "q < length (promises g)" "t_rawUrl (promises g ! q) = u"
      "t_ssr (promises g ! q) = ssr" "\<forall>a. t_state (promises g ! q) \<noteq> Fulfilled a"
      by (auto simp: handle_ok_def split: promise_state.splits)
    have "t_state (promises g ! q) \<noteq> Rejected"
    proof
      assume "t_state (promises g ! q) = Rejected"
      then have "resolveId g (t_rawUrl (promises g ! q)) (t_ssr (promises g ! q)) = Rejects"
        using st q(1) unfolding settled_ok_lookup[OF ok] by auto
      with rs q(2,3) show False by simp
    qed
    with q(4) have pend: "t_state (promises g ! q) = Pending"
      by (cases "t_state (promises g ! q)") auto
    show ?thesis
      using await_pending[OF ok st q(1) pend q(2,3) rs f] unfolding en Promise .
  qed
qed

lemma new_ModuleGraph_ok: "registry_ok e (new_ModuleGraph r) \<and> settled_ok e (new_ModuleGraph r)"
  by (simp add: registry_ok_def settled_ok_def new_ModuleGraph_def)

lemma run_ok:
  "registry_ok e g \<Longrightarrow> settled_ok e g \<Longrightarrow>
   registry_ok e (snd (run e g evs)) \<and> settled_ok e (snd (run e g evs))"
proof (induction evs arbitrary: g)
  case Nil
  then show ?case by simp
next
  case (Cons ev evs)
  show ?case
  proof (cases ev)
    case (Settle q)
    show ?thesis
      using Cons.IH[OF resume_ok[OF Cons.prems(1)] resume_settled_ok[OF Cons.prems], of q]
      unfolding Settle by simp
  next
    case (Call r s sia)
    obtain h g1 where b: "ensureEntry_begin e g r s sia None = (h, g1)"
      by (cases "ensureEntry_begin e g r s sia None") auto
    have "registry_ok e g1" "settled_ok e g1"
      using begin_ok[OF Cons.prems(1), of r s sia] begin_settled[OF Cons.prems, of r s sia] b
      by simp_all
    from Cons.IH[OF this] show ?thesis
      unfolding Call by (cases "run e g1 evs") (simp add: b)
  qed
qed

section \<open>Properties of the update of the import graph\<close>


lemma kept_refl [simp]: "kept g g" by (simp add: kept_def)
lemma grown_refl [simp]: "grown g g" by (simp add: grown_def)













lemma set_new_Set_aux: "set (fold set_add xs acc) = set xs \<union> set acc"
  by (induction xs arbitrary: acc) (auto simp: set_add_def)

lemma set_new_Set [simp]: "set (new_Set xs) = set xs"
  by (simp add: new_Set_def set_new_Set_aux)




subsection \<open>The nodes of the imported urls\<close>

lemma carried_refl [simp]: "carried g g" by (simp add: carried_def)


lemma carried_nodes [simp]: "carried g (g\<lparr>nodes := ns\<rparr>)" by (simp add: carried_def)

lemma carried_add_importer [simp]: "carried g (add_importer g d m)"
  by (simp add: add_importer_def)

lemma registry_ok_nodes [simp]: "registry_ok e (g\<lparr>nodes := ns\<rparr>) = registry_ok e g"
proof -
  have h: "\<And>u ssr h. handle_ok e (g\<lparr>nodes := ns\<rparr>) u ssr h = handle_ok e g u ssr h"
    by (auto simp: handle_ok_def resolved_id_def split: handle.splits option.splits resolution.splits)
  have t: "\<And>p t. task_ok (g\<lparr>nodes := ns\<rparr>) p t = task_ok g p t"
    by (simp add: task_ok_def)
  show ?thesis by (simp add: registry_ok_def h t)
qed

lemma registry_ok_add_importer [simp]: "registry_ok e (add_importer g d m) = registry_ok e g"
  by (simp add: add_importer_def)












subsection \<open>C7: what an invalidation clears and what it keeps\<close>

text \<open>
  Claim C7. For a node that is not yet in the \<^verbatim>\<open>seen\<close> set, \<^verbatim>\<open>invalidateModule\<close>
  sets \<^verbatim>\<open>transformResult\<close>, \<^verbatim>\<open>ssrTransformResult\<close>, \<^verbatim>\<open>ssrModule\<close> and
  \<^verbatim>\<open>ssrError\<close> of that node to null, and it leaves \<^verbatim>\<open>info\<close>, \<^verbatim>\<open>meta\<close>,
  \<^verbatim>\<open>importers\<close>, both imported-module sets, \<^verbatim>\<open>acceptedHmrDeps\<close>,
  \<^verbatim>\<open>acceptedHmrExports\<close> and \<^verbatim>\<open>importedBindings\<close> unchanged, on that node and on
  every other node of the graph.
\<close>

theorem invalidateModule_clears_artifacts_only:
  assumes "modu \<notin> set (seen w)" "modu < length (heap w)"
  shows "transformResult (heap (invalidateModule w modu timestamp isHmr hmrBoundaries) ! modu) = None \<and>
         ssrTransformResult (heap (invalidateModule w modu timestamp isHmr hmrBoundaries) ! modu) = None \<and>
         ssrModule (heap (invalidateModule w modu timestamp isHmr hmrBoundaries) ! modu) = None \<and>
         ssrError (heap (invalidateModule w modu timestamp isHmr hmrBoundaries) ! modu) = None \<and>
         length (heap (invalidateModule w modu timestamp isHmr hmrBoundaries)) = length (heap w) \<and>
         (\<forall>a < length (heap w).
            bookkeeping (heap (invalidateModule w modu timestamp isHmr hmrBoundaries) ! a)
              = bookkeeping (heap w ! a))"
proof -
  obtain vs where "walked timestamp isHmr w (invalidateModule w modu timestamp isHmr hmrBoundaries) (modu # vs)"
    using invalidateModule_target[OF assms] by blast
  then show ?thesis
    using assms(2) unfolding walked_def by simp
qed

theorem invalidateModule_clears_artifacts_only_witness:
  "(2::nat) \<notin> set (seen (chain_walk False)) \<and> 2 < length (heap (chain_walk False)) \<and>
   transformResult (heap (chain_walk False) ! 2) = Some ''c'' \<and>
   transformResult (heap (invalidateModule (chain_walk False) 2 7 True []) ! 2) = None \<and>
   ssrTransformResult (heap (invalidateModule (chain_walk False) 2 7 True []) ! 2) = None \<and>
   ssrModule (heap (invalidateModule (chain_walk False) 2 7 True []) ! 2) = None \<and>
   ssrError (heap (invalidateModule (chain_walk False) 2 7 True []) ! 2) = None \<and>
   bookkeeping (heap (invalidateModule (chain_walk False) 2 7 True []) ! 1)
     = (None, None, [0], [2], [], [], None, None)"
proof -
  have h: "(2::nat) \<notin> set (seen (chain_walk False))" "2 < length (heap (chain_walk False))"
    by (simp_all add: chain_walk_def chain_heap_def)
  have b: "bookkeeping (heap (chain_walk False) ! 1) = (None, None, [0], [2], [], [], None, None)"
    by (simp add: chain_walk_def chain_heap_def bookkeeping_def new_ModuleNode_def)
  have t: "transformResult (heap (chain_walk False) ! 2) = Some ''c''"
    by (simp add: chain_walk_def chain_heap_def)
  show ?thesis
    using h b t invalidateModule_clears_artifacts_only [OF h, of 7 True "[]"]
    by simp
qed

subsection \<open>C1: an importer that accepts the module stops the walk\<close>

text \<open>
  Claim C1, as the code has it. Let A import B and B import C (B is the only importer of C,
  A the only importer of B), and let \<^verbatim>\<open>invalidateModule\<close> be called on C with a
  fresh \<^verbatim>\<open>seen\<close> set. If B lists C in its \<^verbatim>\<open>acceptedHmrDeps\<close>, the call applies
  its assignments to C alone: it does not enter B, so B (its \<^verbatim>\<open>lastHMRTimestamp\<close>
  included) and A are exactly as before. If B does not accept C, C is not one of the
  \<^verbatim>\<open>hmrBoundaries\<close> and A does not accept B, the call invalidates C, then B, then
  A: each gets the timestamp and loses its cached artifacts.
\<close>

theorem chain_invalidation:
  assumes valid: "a < length (heap w)" "b < length (heap w)" "c < length (heap w)"
    and dist: "a \<noteq> b" "b \<noteq> c" "a \<noteq> c"
    and fresh: "seen w = []"
    and chain: "importers (heap w ! c) = [b]" "importers (heap w ! b) = [a]"
  shows "(c \<in> set (acceptedHmrDeps (heap w ! b)) \<longrightarrow>
            invalidateModule w c timestamp isHmr hmrBoundaries =
              w\<lparr>heap := (heap w)[c := clear_node timestamp isHmr (heap w ! c)],
                seen := [c], visits := visits w @ [c]\<rparr>) \<and>
         (c \<notin> set (acceptedHmrDeps (heap w ! b)) \<and> c \<notin> set hmrBoundaries \<and>
          b \<notin> set (acceptedHmrDeps (heap w ! a)) \<longrightarrow>
            take 3 (seen (invalidateModule w c timestamp isHmr hmrBoundaries)) = [c, b, a] \<and>
            heap (invalidateModule w c timestamp isHmr hmrBoundaries) ! c
              = clear_node timestamp isHmr (heap w ! c) \<and>
            heap (invalidateModule w c timestamp isHmr hmrBoundaries) ! b
              = clear_node timestamp isHmr (heap w ! b) \<and>
            heap (invalidateModule w c timestamp isHmr hmrBoundaries) ! a
              = clear_node timestamp isHmr (heap w ! a))"
proof (intro conjI impI)
  assume acc: "c \<in> set (acceptedHmrDeps (heap w ! b))"
  show "invalidateModule w c timestamp isHmr hmrBoundaries =
      w\<lparr>heap := (heap w)[c := clear_node timestamp isHmr (heap w ! c)],
        seen := [c], visits := visits w @ [c]\<rparr>"
    using valid dist fresh chain acc
    by (simp add: invalidateModule.simps Let_def)
next
  assume h: "c \<notin> set (acceptedHmrDeps (heap w ! b)) \<and> c \<notin> set hmrBoundaries \<and>
          b \<notin> set (acceptedHmrDeps (heap w ! a))"
  define w1 where "w1 = w\<lparr>heap := (heap w)[c := clear_node timestamp isHmr (heap w ! c)],
      seen := seen w @ [c], visits := visits w @ [c]\<rparr>"
  define w2 where "w2 = w1\<lparr>heap := (heap w1)[b := clear_node timestamp isHmr (heap w1 ! b)],
      seen := seen w1 @ [b], visits := visits w1 @ [b]\<rparr>"
  have s1: "invalidateModule w c timestamp isHmr hmrBoundaries = invalidateModule w1 b timestamp isHmr []"
    using valid dist fresh chain h
    by (simp add: invalidateModule_unfold w1_def)
  have s2: "invalidateModule w1 b timestamp isHmr [] = invalidateModule w2 a timestamp isHmr []"
    using valid dist fresh chain h
    by (simp add: invalidateModule_unfold w1_def w2_def)
  have "a \<notin> set (seen w2)" "a < length (heap w2)"
    using valid dist fresh by (simp_all add: w1_def w2_def)
  from invalidateModule_target[OF this, of timestamp isHmr "[]"]
  obtain vs where wk: "walked timestamp isHmr w2 (invalidateModule w2 a timestamp isHmr []) (a # vs)"
    by blast
  have sw2: "seen w2 = [c, b]" "length (heap w2) = length (heap w)"
    using fresh by (simp_all add: w1_def w2_def)
  have hw2: "heap w2 ! c = clear_node timestamp isHmr (heap w ! c)"
       "heap w2 ! b = clear_node timestamp isHmr (heap w ! b)"
       "heap w2 ! a = heap w ! a"
    using valid dist by (simp_all add: w1_def w2_def)
  have nin: "c \<notin> set (a # vs)" "b \<notin> set (a # vs)"
    using wk sw2 unfolding walked_def by auto
  show "take 3 (seen (invalidateModule w c timestamp isHmr hmrBoundaries)) = [c, b, a]"
    using wk sw2 unfolding s1 s2 walked_def by simp
  show "heap (invalidateModule w c timestamp isHmr hmrBoundaries) ! c
              = clear_node timestamp isHmr (heap w ! c)"
    using wk sw2 hw2 nin valid unfolding s1 s2 walked_def by simp
  show "heap (invalidateModule w c timestamp isHmr hmrBoundaries) ! b
              = clear_node timestamp isHmr (heap w ! b)"
    using wk sw2 hw2 nin valid unfolding s1 s2 walked_def by simp
  show "heap (invalidateModule w c timestamp isHmr hmrBoundaries) ! a
              = clear_node timestamp isHmr (heap w ! a)"
    using wk sw2 hw2 nin valid unfolding s1 s2 walked_def by simp
qed

theorem chain_invalidation_witness:
  "(2::nat) \<in> set (acceptedHmrDeps (heap (chain_walk True) ! 1)) \<and>
   invalidateModule (chain_walk True) 2 7 True [] =
     (chain_walk True)\<lparr>heap := (heap (chain_walk True))[2 := clear_node 7 True (heap (chain_walk True) ! 2)],
        seen := [2], visits := [2]\<rparr> \<and>
   (2::nat) \<notin> set (acceptedHmrDeps (heap (chain_walk False) ! 1)) \<and>
   (1::nat) \<notin> set (acceptedHmrDeps (heap (chain_walk False) ! 0)) \<and>
   take 3 (seen (invalidateModule (chain_walk False) 2 7 True [])) = [2, 1, 0] \<and>
   heap (invalidateModule (chain_walk False) 2 7 True []) ! 1
     = clear_node 7 True (heap (chain_walk False) ! 1) \<and>
   heap (invalidateModule (chain_walk False) 2 7 True []) ! 0
     = clear_node 7 True (heap (chain_walk False) ! 0)"
proof -
  have t: "(2::nat) \<in> set (acceptedHmrDeps (heap (chain_walk True) ! 1))"
    "importers (heap (chain_walk True) ! 2) = [1]" "importers (heap (chain_walk True) ! 1) = [0]"
    "seen (chain_walk True) = []" "visits (chain_walk True) = []"
    "length (heap (chain_walk True)) = 3"
    by (simp_all add: chain_walk_def chain_heap_def)
  have f: "(2::nat) \<notin> set (acceptedHmrDeps (heap (chain_walk False) ! 1))"
    "(1::nat) \<notin> set (acceptedHmrDeps (heap (chain_walk False) ! 0))"
    "importers (heap (chain_walk False) ! 2) = [1]" "importers (heap (chain_walk False) ! 1) = [0]"
    "seen (chain_walk False) = []" "length (heap (chain_walk False)) = 3"
    by (simp_all add: chain_walk_def chain_heap_def new_ModuleNode_def)
  show ?thesis
    using t f
      chain_invalidation [of 0 "chain_walk True" 1 2 7 True "[]"]
      chain_invalidation [of 0 "chain_walk False" 1 2 7 True "[]"]
    by simp
qed

text \<open>
  As the claim words it, B would get the call's timestamp as its \<^verbatim>\<open>lastHMRTimestamp\<close>.
  On the chain where B accepts C, a call with timestamp 7 leaves B's at 0.
\<close>

theorem chain_counterexample:
  "lastHMRTimestamp (heap (invalidateModule (chain_walk True) 2 7 True []) ! 1) \<noteq> 7"
  by (simp add: invalidateModule.simps chain_walk_def chain_heap_def Let_def new_ModuleNode_def clear_node_def sample_env_def)

subsection \<open>C8: the served url gets the extension of the resolved id\<close>

text \<open>
  Claim C8, as the code has it. \<^verbatim>\<open>resolveUrl\<close> strips the timestamp and import markers
  from the url. If the pending cache of the ssr flag has no entry for the stripped url,
  the resolver is asked: if its promise rejects, so does \<^verbatim>\<open>resolveUrl\<close>; otherwise, with
  the resolved id being the resolver's id (the stripped url on a null result or an empty
  id), the served url is the query-stripped url, then the extension of the query-stripped
  resolved id, then the rest of the url behind its query-stripped part, whenever the
  resolved id differs from the url, the url has no null byte and does not start with
  \<^verbatim>\<open>virtual:\<close>, and the query-stripped url does not end with that extension; in every
  other case the stripped url is returned as it is; the resolved id and the resolver's meta
  come with it. If the cache holds a node with a non-empty id for the stripped url, the
  node's own url, id and meta are returned and the resolver is not asked.
\<close>

theorem resolveUrl_reconciles_extension:
  fixes e :: env and g :: module_graph and u0 :: string and ssr :: bool
  defines "u \<equiv> removeImportQuery e (removeTimestampQuery e u0)"
  shows
    "(getUnresolvedUrlToModule g u ssr = None \<longrightarrow>
        (case resolveId g u ssr of
           Rejects \<Rightarrow> fst (resolveUrl e g u0 ssr) = Inl ResolverRejected
         | Resolves r \<Rightarrow>
             (let resolvedId = (case r of None \<Rightarrow> u | Some x \<Rightarrow> if pr_id x = [] then u else pr_id x);
                  ext = extname e (cleanUrl e resolvedId)
              in fst (resolveUrl e g u0 ssr) =
                   Inr (if resolvedId \<noteq> u \<and> CHR 0x00 \<notin> set u \<and> \<not> prefix ''virtual:'' u
                           \<and> \<not> suffix ext (cleanUrl e u)
                        then cleanUrl e u @ ext @ drop (length (cleanUrl e u)) u
                        else u,
                        resolvedId,
                        case r of None \<Rightarrow> None | Some x \<Rightarrow> pr_meta x)))) \<and>
     (\<forall>a i. getUnresolvedUrlToModule g u ssr = Some (Node a) \<and> a < length (nodes g) \<and>
            id_m (nodes g ! a) = Some i \<and> i \<noteq> [] \<longrightarrow>
        resolveUrl e g u0 ssr = (Inr (url (nodes g ! a), i, meta (nodes g ! a)), g))"
proof (intro conjI impI allI)
  assume miss: "getUnresolvedUrlToModule g u ssr = None"
  show "case resolveId g u ssr of
           Rejects \<Rightarrow> fst (resolveUrl e g u0 ssr) = Inl ResolverRejected
         | Resolves r \<Rightarrow>
             (let resolvedId = (case r of None \<Rightarrow> u | Some x \<Rightarrow> if pr_id x = [] then u else pr_id x);
                  ext = extname e (cleanUrl e resolvedId)
              in fst (resolveUrl e g u0 ssr) =
                   Inr (if resolvedId \<noteq> u \<and> CHR 0x00 \<notin> set u \<and> \<not> prefix ''virtual:'' u
                           \<and> \<not> suffix ext (cleanUrl e u)
                        then cleanUrl e u @ ext @ drop (length (cleanUrl e u)) u
                        else u,
                        resolvedId,
                        case r of None \<Rightarrow> None | Some x \<Rightarrow> pr_meta x))"
  proof (cases "resolveId g u ssr")
    case Rejects
    with miss show ?thesis
      by (simp add: resolveUrl_def internal_resolveUrl_def u_def Let_def)
  next
    case (Resolves r)
    with miss show ?thesis
      by (auto simp: resolveUrl_def internal_resolveUrl_def resolveUrl_finish_def u_def Let_def
               split: option.splits)
  qed
next
  fix a i
  assume "getUnresolvedUrlToModule g u ssr = Some (Node a) \<and> a < length (nodes g) \<and>
            id_m (nodes g ! a) = Some i \<and> i \<noteq> []"
  then show "resolveUrl e g u0 ssr = (Inr (url (nodes g ! a), i, meta (nodes g ! a)), g)"
    by (simp add: resolveUrl_def await_handle_def u_def Let_def)
qed

theorem resolveUrl_reconciles_extension_witness:
  "getUnresolvedUrlToModule (new_ModuleGraph sample_resolveId) ''/src/App?x=1'' False = None \<and>
   fst (resolveUrl sample_env (new_ModuleGraph sample_resolveId) ''/src/App?x=1'' False)
     = Inr (''/src/App.vue?x=1'', ''/root/src/App.vue'', None) \<and>
   getUnresolvedUrlToModule alias_graph ''/@fs/root/src/a.js'' False = Some (Node 0) \<and>
   resolveUrl sample_env alias_graph ''/@fs/root/src/a.js'' False
     = (Inr (''/src/a.js'', ''/root/src/a.js'', None), alias_graph)"
proof -
  have m: "getUnresolvedUrlToModule (new_ModuleGraph sample_resolveId) ''/src/App?x=1'' False = None"
    by (simp add: getUnresolvedUrlToModule_def new_ModuleGraph_def)
  have r: "resolveId (new_ModuleGraph sample_resolveId) ''/src/App?x=1'' False
      = Resolves (Some \<lparr>pr_id = ''/root/src/App.vue'', pr_meta = None\<rparr>)"
    by (simp add: new_ModuleGraph_def sample_resolveId_def sample_env_def)
  have x: "extname sample_env (cleanUrl sample_env ''/root/src/App.vue'') = ''.vue''"
    "cleanUrl sample_env ''/src/App?x=1'' = ''/src/App''"
    by (simp_all add: sample_env_def sample_extname_def)
  have s: "removeImportQuery sample_env (removeTimestampQuery sample_env ''/src/App?x=1'') = ''/src/App?x=1''"
    "removeImportQuery sample_env (removeTimestampQuery sample_env ''/@fs/root/src/a.js'')
       = ''/@fs/root/src/a.js''"
    by (simp_all add: sample_env_def)
  have h: "getUnresolvedUrlToModule alias_graph ''/@fs/root/src/a.js'' False = Some (Node 0)"
    "0 < length (nodes alias_graph)" "id_m (nodes alias_graph ! 0) = Some ''/root/src/a.js''"
    "url (nodes alias_graph ! 0) = ''/src/a.js''" "meta (nodes alias_graph ! 0) = None"
    by (simp_all add: alias_graph_eval getUnresolvedUrlToModule_def new_ModuleNode_def)
  show ?thesis
    using m r x s h
      resolveUrl_reconciles_extension [of "new_ModuleGraph sample_resolveId" sample_env "''/src/App?x=1''" False]
      resolveUrl_reconciles_extension [of alias_graph sample_env "''/@fs/root/src/a.js''" False]
    by (simp add: prefix_def suffix_def)
qed

text \<open>
  As the claim words it, a url that already ends with the extension comes back unchanged.
  After \<^verbatim>\<open>/src/a.js\<close> and \<^verbatim>\<open>/@fs/root/src/a.js\<close> were both requested and resolved to
  one id, \<^verbatim>\<open>resolveUrl\<close> answers the second from the pending cache with the url of the
  node, which is the first.
\<close>

theorem resolveUrl_counterexample:
  "fst (resolveUrl sample_env alias_graph ''/@fs/root/src/a.js'' False)
     = Inr (''/src/a.js'', ''/root/src/a.js'', None) \<and>
   fst (resolveUrl sample_env alias_graph ''/@fs/root/src/a.js'' False)
     \<noteq> Inr (''/@fs/root/src/a.js'', ''/root/src/a.js'', None)"
  by (simp add: alias_graph_eval resolveUrl_def getUnresolvedUrlToModule_def await_handle_def
        sample_env_def new_ModuleNode_def Let_def)

subsection \<open>C5: a rejecting resolver, and a resolver that answers null\<close>

text \<open>
  Claim C5, as the code has it, for a url that has no entry in the pending cache yet.
  If the resolver's promise rejects, \<^verbatim>\<open>ensureEntryFromUrl\<close> and \<^verbatim>\<open>resolveUrl\<close> fail;
  the resolver was invoked once; the node heap and the url, id and file indexes are as
  before; and a later \<^verbatim>\<open>ensureEntryFromUrl\<close> or \<^verbatim>\<open>resolveUrl\<close> for the url fails again
  from the cached promise, without another invocation and without any change.
  If the resolver answers null, neither operation fails: the resolved id falls back to the
  stripped url, \<^verbatim>\<open>resolveUrl\<close> returns the url with itself as id, and
  \<^verbatim>\<open>ensureEntryFromUrl\<close> creates and registers a node under that id if there is none.
\<close>

theorem resolver_failure:
  fixes e :: env and g :: module_graph and rawUrl :: string and ssr sia :: bool
  defines "u \<equiv> removeImportQuery e (removeTimestampQuery e rawUrl)"
  assumes miss: "getUnresolvedUrlToModule g u ssr = None"
  shows
    "(resolveId g u ssr = Rejects \<longrightarrow>
        (let g' = snd (ensureEntryFromUrl e g rawUrl ssr sia)
         in fst (ensureEntryFromUrl e g rawUrl ssr sia) = Inl ResolverRejected \<and>
            nodes g' = nodes g \<and> urlToModuleMap g' = urlToModuleMap g \<and>
            idToModuleMap g' = idToModuleMap g \<and> fileToModulesMap g' = fileToModulesMap g \<and>
            resolveCalls g' = resolveCalls g @ [(u, ssr)] \<and>
            ensureEntryFromUrl e g' rawUrl ssr sia = (Inl ResolverRejected, g') \<and>
            resolveUrl e g' rawUrl ssr = (Inl ResolverRejected, g')) \<and>
        (let g' = snd (resolveUrl e g rawUrl ssr)
         in fst (resolveUrl e g rawUrl ssr) = Inl ResolverRejected \<and>
            nodes g' = nodes g \<and> urlToModuleMap g' = urlToModuleMap g \<and>
            idToModuleMap g' = idToModuleMap g \<and> fileToModulesMap g' = fileToModulesMap g \<and>
            resolveCalls g' = resolveCalls g @ [(u, ssr)])) \<and>
     (resolveId g u ssr = Resolves None \<longrightarrow>
        fst (resolveUrl e g rawUrl ssr) = Inr (u, u, None) \<and>
        (map_of (idToModuleMap g) u = None \<longrightarrow>
           (let g' = snd (ensureEntryFromUrl e g rawUrl ssr sia)
            in fst (ensureEntryFromUrl e g rawUrl ssr sia) = Inr (length (nodes g)) \<and>
               nodes g' = nodes g @ [(new_ModuleNode e u sia)
                                       \<lparr>id_m := Some u, file_m := Some (cleanUrl e u)\<rparr>] \<and>
               map_of (idToModuleMap g') u = Some (length (nodes g)) \<and>
               map_of (urlToModuleMap g') u = Some (length (nodes g)))))"
proof (intro conjI impI)
  assume rej: "resolveId g u ssr = Rejects"
  show "let g' = snd (ensureEntryFromUrl e g rawUrl ssr sia)
         in fst (ensureEntryFromUrl e g rawUrl ssr sia) = Inl ResolverRejected \<and>
            nodes g' = nodes g \<and> urlToModuleMap g' = urlToModuleMap g \<and>
            idToModuleMap g' = idToModuleMap g \<and> fileToModulesMap g' = fileToModulesMap g \<and>
            resolveCalls g' = resolveCalls g @ [(u, ssr)] \<and>
            ensureEntryFromUrl e g' rawUrl ssr sia = (Inl ResolverRejected, g') \<and>
            resolveUrl e g' rawUrl ssr = (Inl ResolverRejected, g')"
    using miss rej
    by (cases ssr)
       (simp_all add: ensureEntryFromUrl_def internal_ensureEntryFromUrl_def ensureEntry_begin_def
          ensureEntry_resume_def await_handle_def getUnresolvedUrlToModule_def
          setUnresolvedUrlToModule_def resolveUrl_def u_def[symmetric] Let_def nth_append)
  show "let g' = snd (resolveUrl e g rawUrl ssr)
         in fst (resolveUrl e g rawUrl ssr) = Inl ResolverRejected \<and>
            nodes g' = nodes g \<and> urlToModuleMap g' = urlToModuleMap g \<and>
            idToModuleMap g' = idToModuleMap g \<and> fileToModulesMap g' = fileToModulesMap g \<and>
            resolveCalls g' = resolveCalls g @ [(u, ssr)]"
    using miss rej
    by (simp add: resolveUrl_def internal_resolveUrl_def u_def[symmetric] Let_def)
next
  assume nul: "resolveId g u ssr = Resolves None"
  show "fst (resolveUrl e g rawUrl ssr) = Inr (u, u, None)"
    using miss nul
    by (simp add: resolveUrl_def internal_resolveUrl_def resolveUrl_finish_def u_def[symmetric] Let_def)
  assume noid: "map_of (idToModuleMap g) u = None"
  show "let g' = snd (ensureEntryFromUrl e g rawUrl ssr sia)
            in fst (ensureEntryFromUrl e g rawUrl ssr sia) = Inr (length (nodes g)) \<and>
               nodes g' = nodes g @ [(new_ModuleNode e u sia)
                                       \<lparr>id_m := Some u, file_m := Some (cleanUrl e u)\<rparr>] \<and>
               map_of (idToModuleMap g') u = Some (length (nodes g)) \<and>
               map_of (urlToModuleMap g') u = Some (length (nodes g))"
    using miss nul noid
    by (cases ssr)
       (simp_all add: ensureEntryFromUrl_def internal_ensureEntryFromUrl_def ensureEntry_begin_def
          ensureEntry_resume_def await_handle_def getUnresolvedUrlToModule_def
          setUnresolvedUrlToModule_def resolveUrl_finish_def register_new_node_def
          u_def[symmetric] Let_def nth_append new_ModuleNode_def)
qed

theorem resolver_failure_witness:
  "getUnresolvedUrlToModule (new_ModuleGraph sample_resolveId) ''/broken'' False = None \<and>
   resolveId (new_ModuleGraph sample_resolveId) ''/broken'' False = Rejects \<and>
   fst (ensureEntryFromUrl sample_env (new_ModuleGraph sample_resolveId) ''/broken'' False True)
     = Inl ResolverRejected \<and>
   nodes (snd (ensureEntryFromUrl sample_env (new_ModuleGraph sample_resolveId) ''/broken'' False True))
     = [] \<and>
   idToModuleMap (snd (ensureEntryFromUrl sample_env (new_ModuleGraph sample_resolveId) ''/broken'' False True))
     = [] \<and>
   resolveCalls (snd (ensureEntryFromUrl sample_env (new_ModuleGraph sample_resolveId) ''/broken'' False True))
     = [(''/broken'', False)] \<and>
   fst (resolveUrl sample_env (new_ModuleGraph sample_resolveId) ''/broken'' False)
     = Inl ResolverRejected \<and>
   getUnresolvedUrlToModule (new_ModuleGraph sample_resolveId) ''/unknown.js'' False = None \<and>
   resolveId (new_ModuleGraph sample_resolveId) ''/unknown.js'' False = Resolves None \<and>
   fst (ensureEntryFromUrl sample_env (new_ModuleGraph sample_resolveId) ''/unknown.js'' False True)
     = Inr 0 \<and>
   map_of (idToModuleMap
     (snd (ensureEntryFromUrl sample_env (new_ModuleGraph sample_resolveId) ''/unknown.js'' False True)))
     ''/unknown.js'' = Some 0"
proof -
  have s: "removeImportQuery sample_env (removeTimestampQuery sample_env ''/broken'') = ''/broken''"
    "removeImportQuery sample_env (removeTimestampQuery sample_env ''/unknown.js'') = ''/unknown.js''"
    by (simp_all add: sample_env_def)
  have m: "getUnresolvedUrlToModule (new_ModuleGraph sample_resolveId) ''/broken'' False = None"
    "getUnresolvedUrlToModule (new_ModuleGraph sample_resolveId) ''/unknown.js'' False = None"
    by (simp_all add: getUnresolvedUrlToModule_def new_ModuleGraph_def)
  have r: "resolveId (new_ModuleGraph sample_resolveId) ''/broken'' False = Rejects"
    "resolveId (new_ModuleGraph sample_resolveId) ''/unknown.js'' False = Resolves None"
    by (simp_all add: new_ModuleGraph_def sample_resolveId_def sample_env_def)
  have i: "nodes (new_ModuleGraph sample_resolveId) = []"
    "idToModuleMap (new_ModuleGraph sample_resolveId) = []"
    "resolveCalls (new_ModuleGraph sample_resolveId) = []"
    by (simp_all add: new_ModuleGraph_def)
  show ?thesis
    using s m r i
      resolver_failure [of "new_ModuleGraph sample_resolveId" sample_env "''/broken''" False True]
      resolver_failure [of "new_ModuleGraph sample_resolveId" sample_env "''/unknown.js''" False True]
    by (simp add: Let_def)
qed

text \<open>
  As the claim words it, a null result makes both operations fail. The sample resolver
  answers null on \<^verbatim>\<open>/unknown.js\<close>; both operations succeed.
\<close>

theorem resolver_null_counterexample:
  "fst (ensureEntryFromUrl sample_env (new_ModuleGraph sample_resolveId) ''/unknown.js'' False True)
     = Inr 0 \<and>
   fst (resolveUrl sample_env (new_ModuleGraph sample_resolveId) ''/unknown.js'' False)
     = Inr (''/unknown.js'', ''/unknown.js'', None)"
  by (simp add: eval_defs)

subsection \<open>C6: what \<^verbatim>\<open>invalidateAll\<close> visits\<close>

text \<open>
  Claim C6, as the code has it. \<^verbatim>\<open>invalidateAll\<close> takes one timestamp and one
  \<^verbatim>\<open>seen\<close> set and iterates the id index: every node registered in the id index is
  invalidated, no node is invalidated twice whatever cycles and diamonds the importer
  edges form, the invalidated nodes got exactly the assignments of \<^verbatim>\<open>invalidateModule\<close>
  with that timestamp, and every other node is as it was. (A node that is registered in the
  file index only is not iterated.)
\<close>

theorem invalidateAll_visits_id_index_once:
  assumes "\<forall>(i, modu) \<in> set (idToModuleMap g). modu < length (nodes g)"
  shows "distinct (visits (invalidateAll_walk g timestamp)) \<and>
         snd ` set (idToModuleMap g) \<subseteq> set (visits (invalidateAll_walk g timestamp)) \<and>
         length (heap (invalidateAll_walk g timestamp)) = length (nodes g) \<and>
         (\<forall>a < length (nodes g).
            heap (invalidateAll_walk g timestamp) ! a =
              (if a \<in> set (visits (invalidateAll_walk g timestamp))
               then clear_node timestamp False (nodes g ! a) else nodes g ! a)) \<and>
         nodes (invalidateAll g timestamp) = heap (invalidateAll_walk g timestamp)"
proof -
  define w0 where "w0 = \<lparr>heap = nodes g, seen = [], visits = []\<rparr>"
  obtain vs where v: "walked timestamp False w0 (invalidateAll_walk g timestamp) vs"
    and c: "\<forall>(i, modu) \<in> set (idToModuleMap g). modu < length (heap w0) \<longrightarrow>
               modu \<in> set (seen w0) \<union> set vs"
    using fold_invalidate_walked[of timestamp False w0 "idToModuleMap g"]
    unfolding invalidateAll_walk_def w0_def by blast
  have vis: "visits (invalidateAll_walk g timestamp) = vs"
    using v unfolding walked_def w0_def by simp
  have "snd ` set (idToModuleMap g) \<subseteq> set vs"
    using c assms unfolding w0_def by fastforce
  then show ?thesis
    using v vis unfolding walked_def w0_def invalidateAll_def by simp
qed

theorem invalidateAll_visits_id_index_once_witness:
  "snd ` set (idToModuleMap fileonly_graph) = {0} \<and>
   length (nodes fileonly_graph) = 2 \<and>
   visits (invalidateAll_walk fileonly_graph 5) = [0] \<and>
   nodes (invalidateAll fileonly_graph 5) ! 0 = clear_node 5 False (nodes fileonly_graph ! 0) \<and>
   nodes (invalidateAll fileonly_graph 5) ! 1 = nodes fileonly_graph ! 1"
proof -
  have h: "\<forall>(i, modu) \<in> set (idToModuleMap fileonly_graph). modu < length (nodes fileonly_graph)"
    "snd ` set (idToModuleMap fileonly_graph) = {0}" "length (nodes fileonly_graph) = 2"
    by (simp_all add: fileonly_graph_eval)
  have v: "visits (invalidateAll_walk fileonly_graph 5) = [0]"
    by (simp add: fileonly_graph_eval invalidateAll_walk_def invalidateModule.simps Let_def
          new_ModuleNode_def)
  show ?thesis
    using h v invalidateAll_visits_id_index_once [OF h(1), of 5]
    by simp
qed

text \<open>
  As the claim words it, no registered node is skipped. The file-only entry of the sample
  graph is registered (under its file) and is not visited.
\<close>

theorem invalidateAll_counterexample:
  "getModulesByFile fileonly_graph ''/root/src/dep.css'' = Some [1] \<and>
   1 \<notin> set (visits (invalidateAll_walk fileonly_graph 5)) \<and>
   lastInvalidationTimestamp (nodes (invalidateAll fileonly_graph 5) ! 1) = 0"
  by (simp add: fileonly_graph_eval invalidateAll_def invalidateAll_walk_def invalidateModule.simps
        getModulesByFile_def Let_def new_ModuleNode_def)

subsection \<open>C9: the timestamps are whatever the caller supplies\<close>

text \<open>
  Claim C9, as the code has it. Every node that a call of \<^verbatim>\<open>invalidateModule\<close> newly
  marks as seen, the target among them, has its \<^verbatim>\<open>lastHMRTimestamp\<close> (with \<^verbatim>\<open>isHmr\<close>)
  or its \<^verbatim>\<open>lastInvalidationTimestamp\<close> (without) set to the timestamp of the call,
  whatever the old value was; the other timestamp, and both timestamps of every other
  node, are as before. \<^verbatim>\<open>invalidateAll\<close> sets the \<^verbatim>\<open>lastInvalidationTimestamp\<close> of every
  node it visits, the nodes of the id index among them, to its one clock reading, and
  \<^verbatim>\<open>onFileChange\<close> that of every node it visits, the nodes of the file among them, to
  one of its clock readings; neither touches \<^verbatim>\<open>lastHMRTimestamp\<close>. So neither timestamp
  of any node decreases in \<^verbatim>\<open>invalidateModule\<close> when the supplied timestamp is at least
  every current value, in \<^verbatim>\<open>invalidateAll\<close> when the clock reading is at least every
  current \<^verbatim>\<open>lastInvalidationTimestamp\<close>, and in \<^verbatim>\<open>onFileChange\<close> when every clock
  reading is.
\<close>

theorem timestamps_follow_the_supplied_clock:
  fixes w :: walk and modu :: addr and timestamp :: int and isHmr :: bool
    and hmrBoundaries :: "addr list" and g :: module_graph
  defines "w' \<equiv> invalidateModule w modu timestamp isHmr hmrBoundaries"
    and "wa \<equiv> invalidateAll_walk g timestamp"
  shows
   "(modu < length (heap w) \<longrightarrow> modu \<in> set (seen w')) \<and>
    (\<forall>a < length (heap w).
       lastHMRTimestamp (heap w' ! a) =
         (if a \<in> set (seen w') \<and> a \<notin> set (seen w) \<and> isHmr then timestamp
          else lastHMRTimestamp (heap w ! a)) \<and>
       lastInvalidationTimestamp (heap w' ! a) =
         (if a \<in> set (seen w') \<and> a \<notin> set (seen w) \<and> \<not> isHmr then timestamp
          else lastInvalidationTimestamp (heap w ! a))) \<and>
    (\<forall>(i, m) \<in> set (idToModuleMap g). m < length (nodes g) \<longrightarrow> m \<in> set (seen wa)) \<and>
    (\<forall>a < length (nodes g).
       lastHMRTimestamp (nodes (invalidateAll g timestamp) ! a) = lastHMRTimestamp (nodes g ! a) \<and>
       lastInvalidationTimestamp (nodes (invalidateAll g timestamp) ! a) =
         (if a \<in> set (seen wa) then timestamp else lastInvalidationTimestamp (nodes g ! a))) \<and>
    (\<forall>mods. getModulesByFile g file = Some mods \<longrightarrow>
       (\<forall>m \<in> set mods. m < length (nodes g) \<longrightarrow> m \<in> set (seen (onFileChange_walk g file now)))) \<and>
    (\<forall>a < length (nodes g).
       lastHMRTimestamp (nodes (onFileChange g file now) ! a) = lastHMRTimestamp (nodes g ! a) \<and>
       (if a \<in> set (seen (onFileChange_walk g file now))
        then \<exists>j. lastInvalidationTimestamp (nodes (onFileChange g file now) ! a) = now j
        else lastInvalidationTimestamp (nodes (onFileChange g file now) ! a)
               = lastInvalidationTimestamp (nodes g ! a))) \<and>
    ((\<forall>n \<in> set (heap w). lastHMRTimestamp n \<le> timestamp \<and> lastInvalidationTimestamp n \<le> timestamp) \<longrightarrow>
      (\<forall>a < length (heap w).
         lastHMRTimestamp (heap w ! a) \<le> lastHMRTimestamp (heap w' ! a) \<and>
         lastInvalidationTimestamp (heap w ! a) \<le> lastInvalidationTimestamp (heap w' ! a))) \<and>
    ((\<forall>n \<in> set (nodes g). lastInvalidationTimestamp n \<le> timestamp) \<longrightarrow>
      (\<forall>a < length (nodes g).
         lastInvalidationTimestamp (nodes g ! a)
           \<le> lastInvalidationTimestamp (nodes (invalidateAll g timestamp) ! a))) \<and>
    ((\<forall>k. \<forall>n \<in> set (nodes g). lastInvalidationTimestamp n \<le> now k) \<longrightarrow>
      (\<forall>a < length (nodes g).
         lastInvalidationTimestamp (nodes g ! a)
           \<le> lastInvalidationTimestamp (nodes (onFileChange g file now) ! a)))"
proof -
  define wc where "wc = onFileChange_walk g file now"
  \<comment> \<open>one call of \<^verbatim>\<open>invalidateModule\<close>\<close>
  obtain vs where v: "walked timestamp isHmr w w' vs"
    using walk_walked(1) unfolding w'_def by blast
  have m1: "modu < length (heap w) \<longrightarrow> modu \<in> set (seen w')"
    unfolding w'_def using invalidateModule_covers by blast
  have m2: "\<forall>a < length (heap w).
       lastHMRTimestamp (heap w' ! a) =
         (if a \<in> set (seen w') \<and> a \<notin> set (seen w) \<and> isHmr then timestamp
          else lastHMRTimestamp (heap w ! a)) \<and>
       lastInvalidationTimestamp (heap w' ! a) =
         (if a \<in> set (seen w') \<and> a \<notin> set (seen w) \<and> \<not> isHmr then timestamp
          else lastInvalidationTimestamp (heap w ! a))"
    using walked_stamps[OF v] by blast
  have m3: "(\<forall>n \<in> set (heap w). lastHMRTimestamp n \<le> timestamp \<and> lastInvalidationTimestamp n \<le> timestamp) \<longrightarrow>
      (\<forall>a < length (heap w).
         lastHMRTimestamp (heap w ! a) \<le> lastHMRTimestamp (heap w' ! a) \<and>
         lastInvalidationTimestamp (heap w ! a) \<le> lastInvalidationTimestamp (heap w' ! a))"
  proof (intro impI allI)
    fix a assume h: "\<forall>n \<in> set (heap w). lastHMRTimestamp n \<le> timestamp \<and> lastInvalidationTimestamp n \<le> timestamp"
      and a: "a < length (heap w)"
    have "heap w ! a \<in> set (heap w)" using a by simp
    with h have "lastHMRTimestamp (heap w ! a) \<le> timestamp"
      "lastInvalidationTimestamp (heap w ! a) \<le> timestamp" by auto
    with m2 a show "lastHMRTimestamp (heap w ! a) \<le> lastHMRTimestamp (heap w' ! a) \<and>
         lastInvalidationTimestamp (heap w ! a) \<le> lastInvalidationTimestamp (heap w' ! a)"
      by simp
  qed
  \<comment> \<open>\<^verbatim>\<open>invalidateAll\<close>\<close>
  define w0 where "w0 = \<lparr>heap = nodes g, seen = [], visits = []\<rparr>"
  obtain va where va: "walked timestamp False w0 wa va"
    and ca: "\<forall>(i, m) \<in> set (idToModuleMap g). m < length (heap w0) \<longrightarrow> m \<in> set (seen w0) \<union> set va"
    using fold_invalidate_walked[of timestamp False w0 "idToModuleMap g"]
    unfolding invalidateAll_walk_def wa_def w0_def by blast
  have sa: "seen wa = va" using va unfolding walked_def w0_def by simp
  have a1: "\<forall>(i, m) \<in> set (idToModuleMap g). m < length (nodes g) \<longrightarrow> m \<in> set (seen wa)"
    using ca unfolding sa by (simp add: w0_def)
  have a2: "\<forall>a < length (nodes g).
       lastHMRTimestamp (nodes (invalidateAll g timestamp) ! a) = lastHMRTimestamp (nodes g ! a) \<and>
       lastInvalidationTimestamp (nodes (invalidateAll g timestamp) ! a) =
         (if a \<in> set (seen wa) then timestamp else lastInvalidationTimestamp (nodes g ! a))"
  proof (intro allI impI)
    fix a assume "a < length (nodes g)"
    then have a: "a < length (heap w0)" by (simp add: w0_def)
    show "lastHMRTimestamp (nodes (invalidateAll g timestamp) ! a) = lastHMRTimestamp (nodes g ! a) \<and>
       lastInvalidationTimestamp (nodes (invalidateAll g timestamp) ! a) =
         (if a \<in> set (seen wa) then timestamp else lastInvalidationTimestamp (nodes g ! a))"
      using walked_stamps[OF va a] by (simp add: invalidateAll_def wa_def[symmetric] w0_def)
  qed
  have a3: "(\<forall>n \<in> set (nodes g). lastInvalidationTimestamp n \<le> timestamp) \<longrightarrow>
      (\<forall>a < length (nodes g).
         lastInvalidationTimestamp (nodes g ! a)
           \<le> lastInvalidationTimestamp (nodes (invalidateAll g timestamp) ! a))"
  proof (intro impI allI)
    fix a assume h: "\<forall>n \<in> set (nodes g). lastInvalidationTimestamp n \<le> timestamp"
      and a: "a < length (nodes g)"
    have "nodes g ! a \<in> set (nodes g)" using a by simp
    with h have "lastInvalidationTimestamp (nodes g ! a) \<le> timestamp" by auto
    with a2 a show "lastInvalidationTimestamp (nodes g ! a)
           \<le> lastInvalidationTimestamp (nodes (invalidateAll g timestamp) ! a)"
      by simp
  qed
  \<comment> \<open>\<^verbatim>\<open>onFileChange\<close>\<close>
  have f0: "(\<forall>mods. getModulesByFile g file = Some mods \<longrightarrow>
       (\<forall>m \<in> set mods. m < length (nodes g) \<longrightarrow> m \<in> set (seen wc))) \<and>
    (\<forall>a < length (nodes g).
       if a \<in> set (seen wc)
       then \<exists>j. heap wc ! a = clear_node (now j) False (nodes g ! a)
       else heap wc ! a = nodes g ! a)"
  proof (cases "getModulesByFile g file")
    case None
    then show ?thesis by (simp add: wc_def onFileChange_walk_def)
  next
    case (Some mods)
    then have e: "wc = invalidateEach w0 mods now 0"
      by (simp add: wc_def onFileChange_walk_def w0_def)
    have h0: "heap w0 = nodes g" "seen w0 = []" by (simp_all add: w0_def)
    note x = invalidateEach_exact[of w0 mods now 0, folded e, unfolded h0]
    have "\<forall>a < length (nodes g).
       if a \<in> set (seen wc)
       then \<exists>j. heap wc ! a = clear_node (now j) False (nodes g ! a)
       else heap wc ! a = nodes g ! a"
    proof (intro allI impI)
      fix a assume "a < length (nodes g)"
      with x have "if a \<in> set (seen wc) \<and> a \<notin> set []
        then \<exists>j\<ge>0. j < 0 + length mods \<and> heap wc ! a = clear_node (now j) False (nodes g ! a)
        else heap wc ! a = nodes g ! a" by blast
      then show "if a \<in> set (seen wc)
       then \<exists>j. heap wc ! a = clear_node (now j) False (nodes g ! a)
       else heap wc ! a = nodes g ! a"
        by (auto split: if_splits)
    qed
    moreover have "\<forall>m \<in> set mods. m < length (nodes g) \<longrightarrow> m \<in> set (seen wc)"
      using x by blast
    ultimately show ?thesis using Some by simp
  qed
  have f1: "\<forall>mods. getModulesByFile g file = Some mods \<longrightarrow>
       (\<forall>m \<in> set mods. m < length (nodes g) \<longrightarrow> m \<in> set (seen wc))"
    using f0 by blast
  have f2: "\<forall>a < length (nodes g).
       lastHMRTimestamp (nodes (onFileChange g file now) ! a) = lastHMRTimestamp (nodes g ! a) \<and>
       (if a \<in> set (seen wc)
        then \<exists>j. lastInvalidationTimestamp (nodes (onFileChange g file now) ! a) = now j
        else lastInvalidationTimestamp (nodes (onFileChange g file now) ! a)
               = lastInvalidationTimestamp (nodes g ! a))"
  proof (intro allI impI)
    fix a assume a: "a < length (nodes g)"
    from f0 a have d: "if a \<in> set (seen wc)
       then \<exists>j. heap wc ! a = clear_node (now j) False (nodes g ! a)
       else heap wc ! a = nodes g ! a" by blast
    show "lastHMRTimestamp (nodes (onFileChange g file now) ! a) = lastHMRTimestamp (nodes g ! a) \<and>
       (if a \<in> set (seen wc)
        then \<exists>j. lastInvalidationTimestamp (nodes (onFileChange g file now) ! a) = now j
        else lastInvalidationTimestamp (nodes (onFileChange g file now) ! a)
               = lastInvalidationTimestamp (nodes g ! a))"
    proof (cases "a \<in> set (seen wc)")
      case True
      with d obtain j where "heap wc ! a = clear_node (now j) False (nodes g ! a)" by auto
      with True show ?thesis by (auto simp: onFileChange_def wc_def[symmetric])
    next
      case False
      with d show ?thesis by (simp add: onFileChange_def wc_def[symmetric])
    qed
  qed
  have f3: "(\<forall>k. \<forall>n \<in> set (nodes g). lastInvalidationTimestamp n \<le> now k) \<longrightarrow>
      (\<forall>a < length (nodes g).
         lastInvalidationTimestamp (nodes g ! a)
           \<le> lastInvalidationTimestamp (nodes (onFileChange g file now) ! a))"
  proof (intro impI allI)
    fix a assume h: "\<forall>k. \<forall>n \<in> set (nodes g). lastInvalidationTimestamp n \<le> now k"
      and a: "a < length (nodes g)"
    have "nodes g ! a \<in> set (nodes g)" using a by simp
    with h have le: "\<And>k. lastInvalidationTimestamp (nodes g ! a) \<le> now k" by auto
    from f2 a have "if a \<in> set (seen wc)
        then \<exists>j. lastInvalidationTimestamp (nodes (onFileChange g file now) ! a) = now j
        else lastInvalidationTimestamp (nodes (onFileChange g file now) ! a)
               = lastInvalidationTimestamp (nodes g ! a)" by blast
    then show "lastInvalidationTimestamp (nodes g ! a)
           \<le> lastInvalidationTimestamp (nodes (onFileChange g file now) ! a)"
      using le by (auto split: if_splits)
  qed
  from m1 m2 a1 a2 f1 f2 m3 a3 f3 show ?thesis unfolding wc_def by blast
qed

theorem timestamps_follow_the_supplied_clock_witness:
  "lastHMRTimestamp (heap (chain_walk False) ! 2) = 10 \<and>
   lastHMRTimestamp (heap (invalidateModule (chain_walk False) 2 20 True []) ! 2) = 20 \<and>
   lastInvalidationTimestamp (heap (invalidateModule (chain_walk False) 2 20 True []) ! 2) = 0 \<and>
   lastInvalidationTimestamp (nodes fileonly_graph ! 0) = 0 \<and>
   lastInvalidationTimestamp (nodes (invalidateAll fileonly_graph 20) ! 0) = 20 \<and>
   lastInvalidationTimestamp (nodes (onFileChange fileonly_graph ''/root/src/dep.css'' (\<lambda>k. 5 + int k)) ! 1)
     \<ge> 5"
proof -
  have a: "\<forall>n \<in> set (heap (chain_walk False)).
      lastHMRTimestamp n \<le> 20 \<and> lastInvalidationTimestamp n \<le> 20"
    "2 < length (heap (chain_walk False))" "lastHMRTimestamp (heap (chain_walk False) ! 2) = 10"
    "lastInvalidationTimestamp (heap (chain_walk False) ! 2) = 0"
    "2 \<notin> set (seen (chain_walk False))"
    by (simp_all add: chain_walk_def chain_heap_def new_ModuleNode_def)
  have b: "length (nodes fileonly_graph) = 2"
    "lastInvalidationTimestamp (nodes fileonly_graph ! 0) = 0"
    "idToModuleMap fileonly_graph = [(''/root/src/a.js'', 0)]"
    "getModulesByFile fileonly_graph ''/root/src/dep.css'' = Some [1]"
    by (simp_all add: fileonly_graph_eval new_ModuleNode_def getModulesByFile_def)
  note t = timestamps_follow_the_supplied_clock
        [where w = "chain_walk False" and modu = 2 and timestamp = 20 and isHmr = True
           and hmrBoundaries = "[]" and g = fileonly_graph,
         of "''/root/src/dep.css''" "\<lambda>k. 5 + int k"]
  from t a(2) have s1: "2 \<in> set (seen (invalidateModule (chain_walk False) 2 20 True []))"
    by blast
  from t have "\<forall>a < length (heap (chain_walk False)).
       lastHMRTimestamp (heap (invalidateModule (chain_walk False) 2 20 True []) ! a) =
         (if a \<in> set (seen (invalidateModule (chain_walk False) 2 20 True [])) \<and>
             a \<notin> set (seen (chain_walk False)) \<and> True then 20
          else lastHMRTimestamp (heap (chain_walk False) ! a)) \<and>
       lastInvalidationTimestamp (heap (invalidateModule (chain_walk False) 2 20 True []) ! a) =
         (if a \<in> set (seen (invalidateModule (chain_walk False) 2 20 True [])) \<and>
             a \<notin> set (seen (chain_walk False)) \<and> \<not> True then 20
          else lastInvalidationTimestamp (heap (chain_walk False) ! a))"
    by blast
  from this[THEN spec, of 2] a(2,4,5) s1
  have 1: "lastHMRTimestamp (heap (invalidateModule (chain_walk False) 2 20 True []) ! 2) = 20"
    "lastInvalidationTimestamp (heap (invalidateModule (chain_walk False) 2 20 True []) ! 2) = 0"
    by simp_all
  from t have "\<forall>(i, m) \<in> set (idToModuleMap fileonly_graph).
      m < length (nodes fileonly_graph) \<longrightarrow> m \<in> set (seen (invalidateAll_walk fileonly_graph 20))"
    by blast
  then have s2: "0 \<in> set (seen (invalidateAll_walk fileonly_graph 20))"
    unfolding b(1,3) by simp
  from t have "\<forall>a < length (nodes fileonly_graph).
       lastHMRTimestamp (nodes (invalidateAll fileonly_graph 20) ! a)
         = lastHMRTimestamp (nodes fileonly_graph ! a) \<and>
       lastInvalidationTimestamp (nodes (invalidateAll fileonly_graph 20) ! a) =
         (if a \<in> set (seen (invalidateAll_walk fileonly_graph 20)) then 20
          else lastInvalidationTimestamp (nodes fileonly_graph ! a))"
    by blast
  from this[THEN spec, of 0] s2 b(1)
  have 2: "lastInvalidationTimestamp (nodes (invalidateAll fileonly_graph 20) ! 0) = 20"
    by simp
  from t have "\<forall>mods. getModulesByFile fileonly_graph ''/root/src/dep.css'' = Some mods \<longrightarrow>
       (\<forall>m \<in> set mods. m < length (nodes fileonly_graph) \<longrightarrow>
          m \<in> set (seen (onFileChange_walk fileonly_graph ''/root/src/dep.css'' (\<lambda>k. 5 + int k))))"
    by blast
  from this[THEN spec, of "[1]"] b(1,4)
  have s3: "1 \<in> set (seen (onFileChange_walk fileonly_graph ''/root/src/dep.css'' (\<lambda>k. 5 + int k)))"
    by simp
  from t have "\<forall>a < length (nodes fileonly_graph).
       lastHMRTimestamp (nodes (onFileChange fileonly_graph ''/root/src/dep.css'' (\<lambda>k. 5 + int k)) ! a)
         = lastHMRTimestamp (nodes fileonly_graph ! a) \<and>
       (if a \<in> set (seen (onFileChange_walk fileonly_graph ''/root/src/dep.css'' (\<lambda>k. 5 + int k)))
        then \<exists>j. lastInvalidationTimestamp
                   (nodes (onFileChange fileonly_graph ''/root/src/dep.css'' (\<lambda>k. 5 + int k)) ! a)
                 = 5 + int j
        else lastInvalidationTimestamp
               (nodes (onFileChange fileonly_graph ''/root/src/dep.css'' (\<lambda>k. 5 + int k)) ! a)
               = lastInvalidationTimestamp (nodes fileonly_graph ! a))"
    by blast
  from this[THEN spec, of 1] s3 b(1)
  have "\<exists>j. lastInvalidationTimestamp
          (nodes (onFileChange fileonly_graph ''/root/src/dep.css'' (\<lambda>k. 5 + int k)) ! 1) = 5 + int j"
    by simp
  then have 3: "lastInvalidationTimestamp
      (nodes (onFileChange fileonly_graph ''/root/src/dep.css'' (\<lambda>k. 5 + int k)) ! 1) \<ge> 5"
    by auto
  show ?thesis using a(3) b(2) 1 2 3 by simp
qed

text \<open>
  As the claim words it, no assignment lowers a timestamp. C of the sample chain has
  \<^verbatim>\<open>lastHMRTimestamp\<close> 10; an invalidation with timestamp 7 lowers it.
\<close>

theorem timestamp_decreases_counterexample:
  "lastHMRTimestamp (heap (invalidateModule (chain_walk True) 2 7 True []) ! 2)
     < lastHMRTimestamp (heap (chain_walk True) ! 2)"
  by (simp add: invalidateModule.simps chain_walk_def chain_heap_def Let_def new_ModuleNode_def clear_node_def)

subsection \<open>C3: one id, one node\<close>

text \<open>
  Claim C3, as the code has it. Take a registry as calls of \<^verbatim>\<open>ensureEntryFromUrl\<close> leave
  it (from the empty graph on), and two raw urls that the resolver resolves to the same id.
  Awaited one after the other, both calls of \<^verbatim>\<open>ensureEntryFromUrl\<close> return a node, and
  the same one. If the id was unknown, the first call constructed that node and registered
  it in the url, id and file indexes; otherwise it is the node that the id index had. The
  second call constructs no node and leaves the id and file indexes as they are; it
  registers its stripped url to the node in the pending cache; and it registers its served
  url to the node in the url index when that url has no entry there yet. An entry that the
  url index already has for the served url is kept as it is.
\<close>

theorem same_id_same_node:
  fixes e :: env and g :: module_graph and rawUrl1 rawUrl2 :: string
  defines "u1 \<equiv> removeImportQuery e (removeTimestampQuery e rawUrl1)"
    and "u2 \<equiv> removeImportQuery e (removeTimestampQuery e rawUrl2)"
  assumes ok: "registry_ok e g" and st: "settled_ok e g"
    and rs1: "resolveId g u1 ssr1 = Resolves x1" and f1: "resolveUrl_finish e u1 x1 = (url1, i, m1)"
    and rs2: "resolveId g u2 ssr2 = Resolves x2" and f2: "resolveUrl_finish e u2 x2 = (url2, i, m2)"
  shows "\<exists>a g1 g2.
      ensureEntryFromUrl e g rawUrl1 ssr1 sia1 = (Inr a, g1) \<and>
      ensureEntryFromUrl e g1 rawUrl2 ssr2 sia2 = (Inr a, g2) \<and>
      (case map_of (idToModuleMap g) i of
         None \<Rightarrow> created_at e g g1 i a
       | Some b \<Rightarrow> a = b \<and> nodes g1 = nodes g) \<and>
      map_of (idToModuleMap g1) i = Some a \<and>
      nodes g2 = nodes g1 \<and> idToModuleMap g2 = idToModuleMap g1 \<and>
      fileToModulesMap g2 = fileToModulesMap g1 \<and>
      getUnresolvedUrlToModule g2 u2 ssr2 = Some (Node a) \<and>
      urlToModuleMap g2 =
        (case map_of (urlToModuleMap g1) url2 of
           None \<Rightarrow> AList.update url2 a (urlToModuleMap g1)
         | Some b \<Rightarrow> urlToModuleMap g1)"
proof -
  from ensure_total[OF ok st rs1[unfolded u1_def] f1[unfolded u1_def], of sia1]
  obtain a g1 where c1: "ensureEntryFromUrl e g rawUrl1 ssr1 sia1 = (Inr a, g1)"
    and ok1: "registry_ok e g1" and st1: "settled_ok e g1" and r: "resolveId g1 = resolveId g"
    and i1: "map_of (idToModuleMap g1) i = Some a"
    and n0: "case map_of (idToModuleMap g) i of
         Some b \<Rightarrow> a = b \<and> nodes g1 = nodes g \<and> idToModuleMap g1 = idToModuleMap g \<and>
                  fileToModulesMap g1 = fileToModulesMap g \<and>
                  urlToModuleMap g1 =
                    (case map_of (urlToModuleMap g) url1 of
                       None \<Rightarrow> AList.update url1 b (urlToModuleMap g)
                     | Some c \<Rightarrow> urlToModuleMap g)
       | None \<Rightarrow> created_at e g g1 i a"
    by blast
  have n1: "case map_of (idToModuleMap g) i of
         None \<Rightarrow> created_at e g g1 i a
       | Some b \<Rightarrow> a = b \<and> nodes g1 = nodes g"
    using n0 by (cases "map_of (idToModuleMap g) i") simp_all
  have rs2': "resolveId g1 (removeImportQuery e (removeTimestampQuery e rawUrl2)) ssr2 = Resolves x2"
    using rs2 r by (simp add: u2_def)
  from ensure_total[OF ok1 st1 rs2' f2[unfolded u2_def], of sia2]
  obtain a2 g2 where c2: "ensureEntryFromUrl e g1 rawUrl2 ssr2 sia2 = (Inr a2, g2)"
    and h2: "getUnresolvedUrlToModule g2 u2 ssr2 = Some (Node a2)"
    and n2: "case map_of (idToModuleMap g1) i of
         Some b \<Rightarrow> a2 = b \<and> nodes g2 = nodes g1 \<and> idToModuleMap g2 = idToModuleMap g1 \<and>
                  fileToModulesMap g2 = fileToModulesMap g1 \<and>
                  urlToModuleMap g2 =
                    (case map_of (urlToModuleMap g1) url2 of
                       None \<Rightarrow> AList.update url2 b (urlToModuleMap g1)
                     | Some c \<Rightarrow> urlToModuleMap g1)
       | None \<Rightarrow> created_at e g1 g2 i a2"
    unfolding u2_def by blast
  from n2 i1 have e2: "a2 = a" "nodes g2 = nodes g1" "idToModuleMap g2 = idToModuleMap g1"
    "fileToModulesMap g2 = fileToModulesMap g1"
    "urlToModuleMap g2 =
        (case map_of (urlToModuleMap g1) url2 of
           None \<Rightarrow> AList.update url2 a (urlToModuleMap g1)
         | Some b \<Rightarrow> urlToModuleMap g1)"
    by simp_all
  from c1 c2 n1 i1 e2 h2 show ?thesis by blast
qed

theorem same_id_same_node_witness:
  "registry_ok sample_env (new_ModuleGraph sample_resolveId) \<and>
   settled_ok sample_env (new_ModuleGraph sample_resolveId) \<and>
   resolved_id sample_env (new_ModuleGraph sample_resolveId) ''/src/a.js'' False
     = Some ''/root/src/a.js'' \<and>
   resolved_id sample_env (new_ModuleGraph sample_resolveId) ''/@fs/root/src/a.js'' False
     = Some ''/root/src/a.js'' \<and>
   ensureEntryFromUrl sample_env (new_ModuleGraph sample_resolveId) ''/src/a.js'' False True
     = (Inr 0, first_graph) \<and>
   ensureEntryFromUrl sample_env first_graph ''/@fs/root/src/a.js'' False True
     = (Inr 0, alias_graph) \<and>
   created_at sample_env (new_ModuleGraph sample_resolveId) first_graph ''/root/src/a.js'' 0 \<and>
   nodes alias_graph = nodes first_graph \<and>
   idToModuleMap alias_graph = idToModuleMap first_graph \<and>
   fileToModulesMap alias_graph = fileToModulesMap first_graph \<and>
   map_of (idToModuleMap alias_graph) ''/root/src/a.js'' = Some 0 \<and>
   getUnresolvedUrlToModule alias_graph ''/@fs/root/src/a.js'' False = Some (Node 0) \<and>
   map_of (urlToModuleMap first_graph) ''/@fs/root/src/a.js'' = None \<and>
   urlToModuleMap alias_graph = AList.update ''/@fs/root/src/a.js'' 0 (urlToModuleMap first_graph)"
proof -
  have ok: "registry_ok sample_env (new_ModuleGraph sample_resolveId)"
    and st: "settled_ok sample_env (new_ModuleGraph sample_resolveId)"
    by (simp_all add: registry_ok_def settled_ok_def new_ModuleGraph_def)
  have s: "removeImportQuery sample_env (removeTimestampQuery sample_env ''/src/a.js'') = ''/src/a.js''"
    "removeImportQuery sample_env (removeTimestampQuery sample_env ''/@fs/root/src/a.js'')
       = ''/@fs/root/src/a.js''"
    by (simp_all add: sample_env_def)
  have rs: "resolveId (new_ModuleGraph sample_resolveId)
              (removeImportQuery sample_env (removeTimestampQuery sample_env ''/src/a.js'')) False
            = Resolves (Some \<lparr>pr_id = ''/root/src/a.js'', pr_meta = None\<rparr>)"
    "resolveId (new_ModuleGraph sample_resolveId)
       (removeImportQuery sample_env (removeTimestampQuery sample_env ''/@fs/root/src/a.js'')) False
     = Resolves (Some \<lparr>pr_id = ''/root/src/a.js'', pr_meta = None\<rparr>)"
    by (simp_all add: new_ModuleGraph_def sample_resolveId_def sample_env_def)
  have f: "resolveUrl_finish sample_env
             (removeImportQuery sample_env (removeTimestampQuery sample_env ''/src/a.js''))
             (Some \<lparr>pr_id = ''/root/src/a.js'', pr_meta = None\<rparr>)
           = (''/src/a.js'', ''/root/src/a.js'', None)"
    "resolveUrl_finish sample_env
       (removeImportQuery sample_env (removeTimestampQuery sample_env ''/@fs/root/src/a.js''))
       (Some \<lparr>pr_id = ''/root/src/a.js'', pr_meta = None\<rparr>)
     = (''/@fs/root/src/a.js'', ''/root/src/a.js'', None)"
    by (simp_all add: resolveUrl_finish_def sample_env_def sample_extname_def Let_def
          prefix_def suffix_def)
  have i: "resolved_id sample_env (new_ModuleGraph sample_resolveId) ''/src/a.js'' False
     = Some ''/root/src/a.js''"
   "resolved_id sample_env (new_ModuleGraph sample_resolveId) ''/@fs/root/src/a.js'' False
     = Some ''/root/src/a.js''"
    using rs f unfolding s by (simp_all add: resolved_id_def)
  have r1: "ensureEntryFromUrl sample_env (new_ModuleGraph sample_resolveId) ''/src/a.js'' False True
     = (Inr 0, first_graph)"
    by (simp add: first_graph_def eval_defs prefix_def suffix_def)
  have r2: "ensureEntryFromUrl sample_env first_graph ''/@fs/root/src/a.js'' False True
     = (Inr 0, alias_graph)"
    by (simp add: alias_graph_def first_graph_def eval_defs prefix_def suffix_def)
  have n: "map_of (idToModuleMap (new_ModuleGraph sample_resolveId)) ''/root/src/a.js'' = None"
    by (simp add: new_ModuleGraph_def)
  have u: "map_of (urlToModuleMap first_graph) ''/@fs/root/src/a.js'' = None"
    by (simp add: first_graph_def eval_defs prefix_def suffix_def)
  from same_id_same_node[OF ok st rs(1) f(1) rs(2) f(2), of True True]
  obtain a g1 g2 where
    "ensureEntryFromUrl sample_env (new_ModuleGraph sample_resolveId) ''/src/a.js'' False True = (Inr a, g1)"
    "ensureEntryFromUrl sample_env g1 ''/@fs/root/src/a.js'' False True = (Inr a, g2)"
    "case map_of (idToModuleMap (new_ModuleGraph sample_resolveId)) ''/root/src/a.js'' of
         None \<Rightarrow> created_at sample_env (new_ModuleGraph sample_resolveId) g1 ''/root/src/a.js'' a
       | Some b \<Rightarrow> a = b \<and> nodes g1 = nodes (new_ModuleGraph sample_resolveId)"
    "map_of (idToModuleMap g1) ''/root/src/a.js'' = Some a"
    "nodes g2 = nodes g1" "idToModuleMap g2 = idToModuleMap g1"
    "fileToModulesMap g2 = fileToModulesMap g1"
    "getUnresolvedUrlToModule g2 ''/@fs/root/src/a.js'' False = Some (Node a)"
    "urlToModuleMap g2 =
        (case map_of (urlToModuleMap g1) ''/@fs/root/src/a.js'' of
           None \<Rightarrow> AList.update ''/@fs/root/src/a.js'' a (urlToModuleMap g1)
         | Some b \<Rightarrow> urlToModuleMap g1)"
    unfolding s by blast
  with r1 r2 n u have
    "created_at sample_env (new_ModuleGraph sample_resolveId) first_graph ''/root/src/a.js'' 0"
    "nodes alias_graph = nodes first_graph" "idToModuleMap alias_graph = idToModuleMap first_graph"
    "fileToModulesMap alias_graph = fileToModulesMap first_graph"
    "map_of (idToModuleMap alias_graph) ''/root/src/a.js'' = Some 0"
    "getUnresolvedUrlToModule alias_graph ''/@fs/root/src/a.js'' False = Some (Node 0)"
    "urlToModuleMap alias_graph = AList.update ''/@fs/root/src/a.js'' 0 (urlToModuleMap first_graph)"
    by simp_all
  with ok st i r1 r2 u show ?thesis by simp
qed

text \<open>
  As the claim words it, every later alias is registered to the existing node. Here
  \<^verbatim>\<open>/src/utils/index.js\<close> and \<^verbatim>\<open>/src/utils\<close> resolve to the same id, and both calls
  return the node 1; but the served url of the alias, \<^verbatim>\<open>/src/utils.js\<close>, already belongs
  to the node 0 of the other file, and the guard \<^verbatim>\<open>!this.urlToModuleMap.has(url)\<close> leaves
  it there.
\<close>

theorem alias_url_taken_counterexample:
  "registry_ok sample_env crossing_graph \<and> settled_ok sample_env crossing_graph \<and>
   resolved_id sample_env crossing_graph ''/src/utils/index.js'' False
     = Some ''/root/src/utils/index.js'' \<and>
   resolved_id sample_env crossing_graph ''/src/utils'' False
     = Some ''/root/src/utils/index.js'' \<and>
   fst (ensureEntryFromUrl sample_env crossing_graph ''/src/utils/index.js'' False True) = Inr 1 \<and>
   fst (ensureEntryFromUrl sample_env
          (snd (ensureEntryFromUrl sample_env crossing_graph ''/src/utils/index.js'' False True))
          ''/src/utils'' False True) = Inr 1 \<and>
   fst (resolveUrl_finish sample_env ''/src/utils''
          (Some \<lparr>pr_id = ''/root/src/utils/index.js'', pr_meta = None\<rparr>)) = ''/src/utils.js'' \<and>
   map_of (urlToModuleMap
             (snd (ensureEntryFromUrl sample_env
                (snd (ensureEntryFromUrl sample_env crossing_graph ''/src/utils/index.js'' False True))
                ''/src/utils'' False True)))
     ''/src/utils.js'' = Some 0"
  by (simp add: crossing_defs registry_ok_def settled_ok_def handle_ok_def task_ok_def served_ok_def
        resolved_id_def prefix_def suffix_def)

subsection \<open>C4: concurrent calls for one url invoke the resolver once\<close>

text \<open>
  Claim C4. Take a consistent registry whose pending cache of the ssr flag has no entry for
  the stripped url yet, and any schedule that starts with a call of
  \<^verbatim>\<open>ensureEntryFromUrl\<close> for the url and goes on with any number of further calls, for
  this url or others, interleaved in any order with the continuations of any tasks. Then
  the first call returns its promise, having stored it in the cache of its ssr flag (and
  not in the other) while the task is still pending and the resolver was invoked once for
  the url; over the whole schedule the resolver is invoked for the url and flag exactly
  once; and every later call for the url and flag gets either that same promise or, once
  the task is fulfilled, the node it was fulfilled with.
\<close>

theorem concurrent_calls_resolve_once:
  fixes e :: env and g :: module_graph and rawUrl :: string and ssr sia :: bool
  defines "u \<equiv> removeImportQuery e (removeTimestampQuery e rawUrl)"
  defines "p \<equiv> length (promises g)"
  assumes ok: "registry_ok e g"
    and miss: "getUnresolvedUrlToModule g u ssr = None"
  shows "(case ensureEntry_begin e g rawUrl ssr sia None of
            (h, g1) \<Rightarrow>
              h = Promise p \<and> getUnresolvedUrlToModule g1 u ssr = Some (Promise p) \<and>
              getUnresolvedUrlToModule g1 u (\<not> ssr) = getUnresolvedUrlToModule g u (\<not> ssr) \<and>
              t_state (promises g1 ! p) = Pending \<and>
              resolveCalls g1 = resolveCalls g @ [(u, ssr)]) \<and>
         (case run e g (Call rawUrl ssr sia # rest) of
            (rs, g') \<Rightarrow>
              count_list (resolveCalls g') (u, ssr) = Suc (count_list (resolveCalls g) (u, ssr)) \<and>
              (\<forall>(r, s, h) \<in> set rs.
                 removeImportQuery e (removeTimestampQuery e r) = u \<and> s = ssr \<longrightarrow>
                   h = Promise p \<or> (\<exists>a. h = Node a \<and> t_state (promises g' ! p) = Fulfilled a)))"
proof -
  obtain h g1 where b: "ensureEntry_begin e g rawUrl ssr sia None = (h, g1)"
    by (cases "ensureEntry_begin e g rawUrl ssr sia None") auto
  have b': "h = Promise p" "getUnresolvedUrlToModule g1 u ssr = Some (Promise p)"
    "getUnresolvedUrlToModule g1 u (\<not> ssr) = getUnresolvedUrlToModule g u (\<not> ssr)"
    "t_state (promises g1 ! p) = Pending" "resolveCalls g1 = resolveCalls g @ [(u, ssr)]"
    "p < length (promises g1)" "t_rawUrl (promises g1 ! p) = u" "t_ssr (promises g1 ! p) = ssr"
    using b miss unfolding u_def p_def by (auto simp: begin_miss)
  have ok1: "registry_ok e g1" using begin_ok[OF ok, of rawUrl ssr sia] b by simp
  note a = run_after_publication[OF ok1 b'(6,7,8), of rest]
  show ?thesis
    using a b' by (auto simp: b split: prod.splits)
qed

theorem concurrent_calls_resolve_once_witness:
  "registry_ok sample_env (new_ModuleGraph sample_resolveId) \<and>
   getUnresolvedUrlToModule (new_ModuleGraph sample_resolveId) ''/src/a.js'' False = None \<and>
   fst (run sample_env (new_ModuleGraph sample_resolveId) sample_schedule)
     = [(''/src/a.js'', False, Promise 0), (''/src/a.js'', False, Promise 0),
        (''/broken'', False, Promise 1), (''/src/a.js'', False, Node 0)] \<and>
   resolveCalls (snd (run sample_env (new_ModuleGraph sample_resolveId) sample_schedule))
     = [(''/src/a.js'', False), (''/broken'', False)] \<and>
   count_list (resolveCalls (snd (run sample_env (new_ModuleGraph sample_resolveId) sample_schedule)))
     (''/src/a.js'', False) = 1 \<and>
   t_state (promises (snd (run sample_env (new_ModuleGraph sample_resolveId) sample_schedule)) ! 0)
     = Fulfilled 0"
proof -
  have ok: "registry_ok sample_env (new_ModuleGraph sample_resolveId)"
    by (simp add: registry_ok_def new_ModuleGraph_def)
  have s: "removeImportQuery sample_env (removeTimestampQuery sample_env ''/src/a.js'') = ''/src/a.js''"
    by (simp add: sample_env_def)
  have miss: "getUnresolvedUrlToModule (new_ModuleGraph sample_resolveId)
      (removeImportQuery sample_env (removeTimestampQuery sample_env ''/src/a.js'')) False = None"
    by (simp add: getUnresolvedUrlToModule_def new_ModuleGraph_def)
  have r: "fst (run sample_env (new_ModuleGraph sample_resolveId) sample_schedule)
     = [(''/src/a.js'', False, Promise 0), (''/src/a.js'', False, Promise 0),
        (''/broken'', False, Promise 1), (''/src/a.js'', False, Node 0)]"
    "resolveCalls (snd (run sample_env (new_ModuleGraph sample_resolveId) sample_schedule))
     = [(''/src/a.js'', False), (''/broken'', False)]"
    "t_state (promises (snd (run sample_env (new_ModuleGraph sample_resolveId) sample_schedule)) ! 0)
     = Fulfilled 0"
    by (simp_all add: sample_schedule_def eval_defs prefix_def suffix_def)
  have c: "count_list (resolveCalls (new_ModuleGraph sample_resolveId)) (''/src/a.js'', False) = 0"
    by (simp add: new_ModuleGraph_def)
  show ?thesis
    using ok miss r c
      concurrent_calls_resolve_once [OF ok miss, of True "tl sample_schedule"]
    unfolding s by (simp add: sample_schedule_def)
qed

subsection \<open>C10: a file-only entry is in the file index alone\<close>




subsection \<open>C2: the importers follow the imports\<close>



end
